theory Spec2Isabelle
  imports Complex_Main
begin

section \<open>Values shared by the model of \<^verbatim>\<open>train.py\<close>\<close>

text \<open>
  Exceptions of the Python source are values: a function that can raise returns
  \<open>error + 'a\<close>, with \<open>Inl\<close> the exception.  A numpy float that may be NaN is a
  \<open>npfloat\<close>; every other float is a real number (rounding is not modelled).
\<close>

datatype error = IndexError | ValueError | OverflowError

datatype npfloat = NaN | Val real

definition bind_err :: "error + 'a \<Rightarrow> ('a \<Rightarrow> error + 'b) \<Rightarrow> error + 'b" where
  "bind_err m f = (case m of Inl e \<Rightarrow> Inl e | Inr x \<Rightarrow> f x)"

text \<open>\<^verbatim>\<open>TOP_K = 5\<close> and \<^verbatim>\<open>K_FOLDS = 5\<close>, the module constants.\<close>

definition TOP_K :: nat where
  "TOP_K = 5"

definition K_FOLDS :: nat where
  "K_FOLDS = 5"

text \<open>
  \<^verbatim>\<open>np.mean(xs)\<close> of a list of floats: NaN (with a warning, no exception) on the
  empty list.
\<close>

definition np_mean :: "real list \<Rightarrow> npfloat" where
  "np_mean xs = (if xs = [] then NaN else Val (sum_list xs / real (length xs)))"

text \<open>\<^verbatim>\<open>np.where(row == v)[0]\<close>: the indices of the entries equal to \<open>v\<close>, ascending.\<close>

definition np_where_eq :: "'a list \<Rightarrow> 'a \<Rightarrow> nat list" where
  "np_where_eq row v = filter (\<lambda>j. row ! j = v) [0..<length row]"

text \<open>
  \<^verbatim>\<open>np.argsort\<close> is a parameter \<open>argsort\<close> of every function that calls it: numpy's
  default sort is not stable, and nothing fixes the order it gives to equal entries.
  What is fixed is \<open>sorts_row\<close>: the result holds every index of the row once, in
  ascending order of the entries; \<open>sorts_rows\<close> says so of every row of a matrix.
  \<open>stable_argsort\<close> is one such function (\<^verbatim>\<open>np.argsort\<close> with \<^verbatim>\<open>kind='stable'\<close>),
  the one that keeps equal entries in index order; the model is run with it on examples.
\<close>

definition sorts_row :: "('a::linorder list \<Rightarrow> nat list) \<Rightarrow> 'a list \<Rightarrow> bool" where
  "sorts_row argsort row =
     (set (argsort row) = {0..<length row} \<and> distinct (argsort row) \<and>
      sorted (map ((!) row) (argsort row)))"

definition sorts_rows :: "('a::linorder list \<Rightarrow> nat list) \<Rightarrow> 'a list list \<Rightarrow> bool" where
  "sorts_rows argsort proba = (\<forall>row \<in> set proba. sorts_row argsort row)"

definition stable_argsort :: "'a::linorder list \<Rightarrow> nat list" where
  "stable_argsort row = sort_key (\<lambda>j. row ! j) [0..<length row]"

text \<open>
  The slice \<^verbatim>\<open>xs[-k:]\<close> for \<open>k \<ge> 0\<close>: the last \<open>k\<close> elements, all of them when
  the list is shorter, and (since \<^verbatim>\<open>-0\<close> is \<^verbatim>\<open>0\<close>) the whole list for \<open>k = 0\<close>.
\<close>

definition slice_last :: "nat \<Rightarrow> 'a list \<Rightarrow> 'a list" where
  "slice_last k xs = (if k = 0 then xs else drop (length xs - k) xs)"

text \<open>\<^verbatim>\<open>np.argsort(proba, axis=1)[:, -k:]\<close>, one index list per row.\<close>

definition topk_row :: "('a list \<Rightarrow> nat list) \<Rightarrow> nat \<Rightarrow> 'a list \<Rightarrow> nat list" where
  "topk_row argsort k row = slice_last k (argsort row)"

definition topk :: "('a list \<Rightarrow> nat list) \<Rightarrow> nat \<Rightarrow> 'a list list \<Rightarrow> nat list list" where
  "topk argsort k proba = map (topk_row argsort k) proba"

section \<open>Metrics\<close>

subsection \<open>\<^verbatim>\<open>iou_score\<close>\<close>

text \<open>
  The score of one row, line 119: \<^verbatim>\<open>1.0 if not t and not p else len(t & p) / len(t | p)\<close>
  with \<open>t\<close> and \<open>p\<close> the index sets of the ones of the two rows.
\<close>

definition iou_row :: "int list \<Rightarrow> int list \<Rightarrow> real" where
  "iou_row yt yp =
     (let t = set (np_where_eq yt 1); p = set (np_where_eq yp 1)
      in if t = {} \<and> p = {} then 1 else real (card (t \<inter> p)) / real (card (t \<union> p)))"

text \<open>The loop over \<^verbatim>\<open>range(len(y_true))\<close>; \<^verbatim>\<open>y_pred[i]\<close> raises beyond its last row.\<close>

fun iou_loop :: "int list list \<Rightarrow> int list list \<Rightarrow> real list \<Rightarrow> error + real list" where
  "iou_loop [] yp scores = Inr scores"
| "iou_loop (t # ts) [] scores = Inl IndexError"
| "iou_loop (t # ts) (p # ps) scores = iou_loop ts ps (scores @ [iou_row t p])"

definition iou_score :: "int list list \<Rightarrow> int list list \<Rightarrow> error + npfloat" where
  "iou_score y_true y_pred = bind_err (iou_loop y_true y_pred []) (\<lambda>scores. Inr (np_mean scores))"

subsection \<open>\<^verbatim>\<open>recall_at_k\<close>\<close>

text \<open>
  Lines 80 to 84.  \<^verbatim>\<open>topk\<close> is computed for every row of \<^verbatim>\<open>proba\<close> first; the
  loop runs over the rows of \<^verbatim>\<open>y_true\<close> and reads \<^verbatim>\<open>topk[i]\<close> only for a row
  whose truth set is not empty, so only there can the index be out of range.
\<close>

fun recall_loop :: "int list list \<Rightarrow> nat list list \<Rightarrow> real list \<Rightarrow> error + real list" where
  "recall_loop [] tk scores = Inr scores"
| "recall_loop (y # ys) tk scores =
     (let true_set = set (np_where_eq y 1)
      in if true_set \<noteq> {} then
           (case tk of
              [] \<Rightarrow> Inl IndexError
            | t # ts \<Rightarrow>
                recall_loop ys ts
                  (scores @ [real (card (true_set \<inter> set t)) / real (card true_set)]))
         else recall_loop ys (tl tk) scores)"

definition recall_at_k ::
  "(real list \<Rightarrow> nat list) \<Rightarrow> int list list \<Rightarrow> real list list \<Rightarrow> nat \<Rightarrow> error + npfloat" where
  "recall_at_k argsort y_true proba k =
     bind_err (recall_loop y_true (topk argsort k proba) [])
       (\<lambda>scores. Inr (if scores \<noteq> [] then np_mean scores else Val 0))"

subsection \<open>\<^verbatim>\<open>partial_coverage_score\<close>\<close>

text \<open>
  Lines 106 to 109: a list comprehension over every row of \<^verbatim>\<open>y_true\<close>, then
  \<^verbatim>\<open>np.mean\<close>.  The denominator is \<^verbatim>\<open>max(1, np.sum(y_true[i]))\<close>, the sum of the
  entries of the row.
\<close>

fun coverage_loop :: "int list list \<Rightarrow> nat list list \<Rightarrow> error + real list" where
  "coverage_loop [] tk = Inr []"
| "coverage_loop (y # ys) [] = Inl IndexError"
| "coverage_loop (y # ys) (t # ts) =
     bind_err (coverage_loop ys ts)
       (\<lambda>rest. Inr (real (card (set (np_where_eq y 1) \<inter> set t)) / real_of_int (max 1 (sum_list y)) # rest))"

definition partial_coverage_score ::
  "(real list \<Rightarrow> nat list) \<Rightarrow> int list list \<Rightarrow> real list list \<Rightarrow> nat \<Rightarrow> error + npfloat" where
  "partial_coverage_score argsort y_true proba k =
     bind_err (coverage_loop y_true (topk argsort k proba)) (\<lambda>scores. Inr (np_mean scores))"

subsection \<open>\<^verbatim>\<open>accuracy_counts\<close>\<close>

text \<open>
  Lines 123 and 124.  A matrix is the list of its rows.  The boolean mask
  \<^verbatim>\<open>y_true_cnt > 0\<close> selects cells in row-major order; indexing \<^verbatim>\<open>y_pred_cnt\<close> with a
  mask of another shape raises IndexError.
\<close>

definition accuracy_counts :: "int list list \<Rightarrow> int list list \<Rightarrow> error + npfloat" where
  "accuracy_counts y_true_cnt y_pred_cnt =
     (if map length y_pred_cnt \<noteq> map length y_true_cnt then Inl IndexError
      else
        (let cells = filter (\<lambda>(t, p). 0 < t) (zip (concat y_true_cnt) (concat y_pred_cnt))
         in Inr (np_mean (map (\<lambda>(t, p). if t = p then 1 else 0) cells))))"

section \<open>Targets: \<^verbatim>\<open>make_targets\<close>\<close>

text \<open>
  A row of the dataframe after \<^verbatim>\<open>parse_part_list\<close>: the two feature columns, the work
  order, the list of part identifiers and the list of quantities.
\<close>

record ('l, 'g) sample =
  instructions :: string
  asset :: string
  work_order :: 'g
  target :: "'l list"
  quantity :: "int list"

text \<open>
  \<^verbatim>\<open>MultiLabelBinarizer.fit_transform\<close> of scikit-learn: \<^verbatim>\<open>classes_\<close> are the distinct
  labels in sorted order, and the indicator matrix holds a one where the row's list
  contains the class.
\<close>

definition mlb_classes :: "'l::linorder list list \<Rightarrow> 'l list" where
  "mlb_classes ys = sort (remdups (concat ys))"

definition mlb_transform :: "'l list \<Rightarrow> 'l list list \<Rightarrow> int list list" where
  "mlb_transform classes ys =
     map (\<lambda>labels. map (\<lambda>cls. if cls \<in> set labels then 1 else 0) classes) ys"

text \<open>
  \<^verbatim>\<open>cnt_vec\<close>, lines 157 to 159: the dict built from \<^verbatim>\<open>zip\<close> (a later pair
  overwrites an earlier one with the same key, and \<^verbatim>\<open>zip\<close> stops at the shorter list),
  then \<^verbatim>\<open>mapping.get(cls, 0)\<close> for each class.
\<close>

definition zip_dict :: "'l list \<Rightarrow> int list \<Rightarrow> ('l \<rightharpoonup> int)" where
  "zip_dict ps qs = fold (\<lambda>(p, q) m. m(p \<mapsto> q)) (zip ps qs) Map.empty"

definition cnt_vec :: "'l list \<Rightarrow> ('l, 'g) sample \<Rightarrow> int list" where
  "cnt_vec classes row =
     (let mapping = zip_dict (target row) (quantity row)
      in map (\<lambda>cls. case mapping cls of None \<Rightarrow> 0 | Some q \<Rightarrow> q) classes)"

text \<open>
  Line 160 builds \<^verbatim>\<open>np.array\<close> from the rows of Python integers and casts it with
  \<^verbatim>\<open>.astype(int)\<close>, to signed 64-bit integers (numpy's default integer).  When every entry fits 64 signed bits the
  array holds the entries and the cast keeps them.  An entry below \<open>-2^63\<close> or from
  \<open>2^64\<close> makes an array of Python objects, and the cast raises OverflowError.  When
  every entry lies from \<open>2^63\<close> to below \<open>2^64\<close> the array is of unsigned 64-bit
  integers, and the cast wraps each entry around.  In the remaining case, entries from
  \<open>2^63\<close> next to smaller ones, the array is of floating-point numbers and the result of
  the cast depends on the platform: it is the parameter \<open>cast_float64\<close>.
\<close>

definition astype_int ::
  "(int list list \<Rightarrow> int list list) \<Rightarrow> int list list \<Rightarrow> error + int list list" where
  "astype_int cast_float64 m =
     (let vs = concat m
      in if \<forall>v \<in> set vs. - (2 ^ 63) \<le> v \<and> v < 2 ^ 63 then Inr m
         else if \<exists>v \<in> set vs. v < - (2 ^ 63) \<or> 2 ^ 64 \<le> v then Inl OverflowError
         else if \<forall>v \<in> set vs. 2 ^ 63 \<le> v then Inr (map (map (\<lambda>v. v - 2 ^ 64)) m)
         else Inr (cast_float64 m))"

definition make_targets ::
  "(int list list \<Rightarrow> int list list) \<Rightarrow> ('l::linorder, 'g) sample list \<Rightarrow>
     error + (string \<times> string) list \<times> int list list \<times> int list list \<times> 'l list" where
  "make_targets cast_float64 df =
     (let X = map (\<lambda>r. (instructions r, asset r)) df;
          classes = mlb_classes (map target df);
          Y_bin = mlb_transform classes (map target df)
      in bind_err (astype_int cast_float64 (map (cnt_vec classes) df))
           (\<lambda>Y_cnt. Inr (X, Y_bin, Y_cnt, classes)))"

section \<open>The quantity safeguard\<close>

text \<open>
  Lines 189 to 195.  The matrix is updated cell by cell; \<^verbatim>\<open>qty_pred[i,j]\<close> raises
  IndexError outside the matrix.
\<close>

definition safeguard_cell :: "nat \<Rightarrow> nat \<Rightarrow> int list list \<Rightarrow> error + int list list" where
  "safeguard_cell i j qty =
     (if i < length qty \<and> j < length (qty ! i)
      then Inr (if qty ! i ! j = 0 then qty[i := (qty ! i)[j := 1]] else qty)
      else Inl IndexError)"

fun safeguard_idxs :: "nat \<Rightarrow> nat list \<Rightarrow> int list list \<Rightarrow> error + int list list" where
  "safeguard_idxs i [] qty = Inr qty"
| "safeguard_idxs i (j # js) qty = bind_err (safeguard_cell i j qty) (safeguard_idxs i js)"

fun safeguard_rows :: "nat \<Rightarrow> nat list list \<Rightarrow> int list list \<Rightarrow> error + int list list" where
  "safeguard_rows i [] qty = Inr qty"
| "safeguard_rows i (idxs # rest) qty =
     bind_err (safeguard_idxs i idxs qty) (safeguard_rows (Suc i) rest)"

definition apply_quantity_safeguard ::
  "(real list \<Rightarrow> nat list) \<Rightarrow> real list list \<Rightarrow> int list list \<Rightarrow> nat \<Rightarrow> error + int list list" where
  "apply_quantity_safeguard argsort proba qty_pred k =
     safeguard_rows 0 (topk argsort k proba) qty_pred"

section \<open>Notions of the specification and closed forms for the proofs\<close>

text \<open>The label set of a row: the indices that hold a one.\<close>

definition label_set :: "int list \<Rightarrow> nat set" where
  "label_set row = {l. l < length row \<and> row ! l = 1}"

text \<open>
  Closed forms of the two loops, used in the proofs: what the safeguard does to one row
  given the indices it visits, and to the rows \<open>i, i + 1, \<dots>\<close> of the matrix.
\<close>

definition upd_row :: "nat list \<Rightarrow> int list \<Rightarrow> int list" where
  "upd_row js row = map (\<lambda>j. if j \<in> set js \<and> row ! j = 0 then 1 else row ! j) [0..<length row]"

text \<open>
  A set of top-\<open>k\<close> labels of a row of probabilities, as the specification words it:
  \<open>k\<close> labels of the row (all of them when the row has fewer), none of them with a
  smaller probability than a label left out.  Labels of equal probability at the
  boundary make several such sets.
\<close>

definition is_topk_set :: "nat \<Rightarrow> 'a::linorder list \<Rightarrow> nat set \<Rightarrow> bool" where
  "is_topk_set k row S =
     (S \<subseteq> {0..<length row} \<and> card S = min k (length row) \<and>
      (\<forall>a \<in> S. \<forall>b \<in> {0..<length row} - S. row ! b \<le> row ! a))"

text \<open>
  \<open>predicted_set(i)\<close> in the code: the labels of \<^verbatim>\<open>topk[i]\<close>, line 79 (and 105, 190).
  That it is a set of top-\<open>k\<close> labels is proved below, for \<open>k > 0\<close>.
\<close>

definition predicted_set :: "(real list \<Rightarrow> nat list) \<Rightarrow> nat \<Rightarrow> real list list \<Rightarrow> nat \<Rightarrow> nat set" where
  "predicted_set argsort k proba i = set (topk argsort k proba ! i)"

text \<open>The cells the safeguard reads all lie inside the matrix.\<close>

definition rows_ok :: "nat \<Rightarrow> nat list list \<Rightarrow> int list list \<Rightarrow> bool" where
  "rows_ok i tks qty =
     (\<forall>t < length tks. tks ! t = [] \<or>
        (i + t < length qty \<and> (\<forall>j \<in> set (tks ! t). j < length (qty ! (i + t)))))"

definition upd_rows :: "nat \<Rightarrow> nat list list \<Rightarrow> int list list \<Rightarrow> int list list" where
  "upd_rows i tks qty =
     map (\<lambda>r. if i \<le> r \<and> r < i + length tks then upd_row (tks ! (r - i)) (qty ! r) else qty ! r)
       [0..<length qty]"

text \<open>Two matrices of one shape.\<close>

definition same_shape :: "'a list list \<Rightarrow> 'b list list \<Rightarrow> bool" where
  "same_shape a b = (map length a = map length b)"

text \<open>
  The quantity matrix has a cell for every cell of the probability matrix, and a matrix
  without negative entries.
\<close>

definition covers :: "'a list list \<Rightarrow> 'b list list \<Rightarrow> bool" where
  "covers qty proba =
     (length proba \<le> length qty \<and> (\<forall>i < length proba. length (proba ! i) \<le> length (qty ! i)))"

definition nonneg_matrix :: "int list list \<Rightarrow> bool" where
  "nonneg_matrix m = (\<forall>row \<in> set m. \<forall>v \<in> set row. 0 \<le> v)"

text \<open>The cells that the mask of \<^verbatim>\<open>accuracy_counts\<close> selects, with their predictions.\<close>

definition positive_cells :: "int list list \<Rightarrow> int list list \<Rightarrow> (int \<times> int) list" where
  "positive_cells y_true_cnt y_pred_cnt =
     filter (\<lambda>(t, p). 0 < t) (zip (concat y_true_cnt) (concat y_pred_cnt))"

text \<open>\<open>truth(i)\<close>: the label set of row \<open>i\<close> of the truth matrix.\<close>

definition truth :: "int list list \<Rightarrow> nat \<Rightarrow> nat set" where
  "truth y_true i = label_set (y_true ! i)"

text \<open>
  recall@K as the specification words it, for the predicted sets \<open>pred i\<close>: the mean,
  over the rows whose truth set is not empty, of the share of the truth set that is
  predicted; 0 when there is no such row.
\<close>

definition recall_row :: "(nat \<Rightarrow> nat set) \<Rightarrow> int list list \<Rightarrow> nat \<Rightarrow> real" where
  "recall_row pred y_true i =
     real (card (truth y_true i \<inter> pred i)) / real (card (truth y_true i))"

definition recall_spec :: "(nat \<Rightarrow> nat set) \<Rightarrow> int list list \<Rightarrow> real" where
  "recall_spec pred y_true =
     (let rows = filter (\<lambda>i. truth y_true i \<noteq> {}) [0..<length y_true]
      in if rows = [] then 0
         else sum_list (map (recall_row pred y_true) rows) / real (length rows))"

text \<open>
  Partial coverage as the specification words it, for the predicted sets \<open>pred i\<close>: the
  mean over all rows of the size of the intersection over \<open>max(1, |truth(i)|)\<close>.
\<close>

definition coverage_row :: "(nat \<Rightarrow> nat set) \<Rightarrow> int list list \<Rightarrow> nat \<Rightarrow> real" where
  "coverage_row pred y_true i =
     real (card (truth y_true i \<inter> pred i)) / real (max 1 (card (truth y_true i)))"

definition coverage_spec :: "(nat \<Rightarrow> nat set) \<Rightarrow> int list list \<Rightarrow> real" where
  "coverage_spec pred y_true =
     sum_list (map (coverage_row pred y_true) [0..<length y_true]) / real (length y_true)"

text \<open>A matrix of zeros and ones.\<close>

definition binary_matrix :: "int list list \<Rightarrow> bool" where
  "binary_matrix m = (\<forall>row \<in> set m. \<forall>v \<in> set row. v = 0 \<or> v = 1)"

section \<open>Stage 2: the quantity model of one label\<close>

text \<open>
  \<^verbatim>\<open>np.unique(xs)\<close>: the distinct values, sorted.  \<^verbatim>\<open>np.bincount(ys)\<close>: the number of
  occurrences of each value from 0 to the largest one; ValueError on a negative value,
  the empty array on the empty array.  \<^verbatim>\<open>argmax\<close> and \<^verbatim>\<open>argmin\<close>: the index of the
  first occurrence of the largest (smallest) entry; ValueError on the empty array.
\<close>

definition np_unique :: "'a::linorder list \<Rightarrow> 'a list" where
  "np_unique xs = sort (remdups xs)"

definition bincount :: "int list \<Rightarrow> error + nat list" where
  "bincount ys =
     (if \<exists>y \<in> set ys. y < 0 then Inl ValueError
      else if ys = [] then Inr []
      else Inr (map (\<lambda>v. count_list ys (int v)) [0..<Suc (nat (Max (set ys)))]))"

definition argmax :: "'a::linorder list \<Rightarrow> error + nat" where
  "argmax xs =
     (if xs = [] then Inl ValueError
      else Inr (length (takeWhile (\<lambda>x. x \<noteq> Max (set xs)) xs)))"

definition argmin :: "'a::linorder list \<Rightarrow> error + nat" where
  "argmin xs =
     (if xs = [] then Inl ValueError
      else Inr (length (takeWhile (\<lambda>x. x \<noteq> Min (set xs)) xs)))"

text \<open>Indexing with a boolean mask, \<^verbatim>\<open>xs[mask]\<close>, and \<^verbatim>\<open>mask.sum()\<close>.\<close>

definition np_mask :: "bool list \<Rightarrow> 'a list \<Rightarrow> 'a list" where
  "np_mask msk xs = map snd (filter fst (zip msk xs))"

definition mask_sum :: "bool list \<Rightarrow> nat" where
  "mask_sum msk = length (filter (\<lambda>b. b) msk)"

text \<open>
  A fitted quantity model: the \<^verbatim>\<open>DummyClassifier\<close> with its constant, or a fitted
  \<^verbatim>\<open>LinearSVC\<close>, which is a function from a feature row to a quantity.  Fitting the
  \<^verbatim>\<open>LinearSVC\<close> is a parameter \<open>svc\<close> of the model.
\<close>

datatype 'x qty_model = DummyConstant int | QtySVC "'x \<Rightarrow> int"

fun predict_qty :: "'x qty_model \<Rightarrow> 'x list \<Rightarrow> int list" where
  "predict_qty (DummyConstant c) X = replicate (length X) c"
| "predict_qty (QtySVC f) X = map f X"

text \<open>
  Lines 233 to 247, for the column \<open>y_col = Y_cnt[tr, lbl]\<close> of the training rows of a
  fold.
\<close>

definition fit_quantity_fold ::
  "('x list \<Rightarrow> int list \<Rightarrow> error + ('x \<Rightarrow> int)) \<Rightarrow> 'x list \<Rightarrow> int list \<Rightarrow> error + 'x qty_model" where
  "fit_quantity_fold svc Xt_tr y_col =
     (let msk = map (\<lambda>q. 0 < q) y_col;
          yq = np_mask msk y_col
      in if mask_sum msk < 3 \<or> length (np_unique yq) < 2 then
           bind_err
             (if mask_sum msk = 0 then Inr 0
              else bind_err (bincount yq) (\<lambda>counts. bind_err (argmax counts) (\<lambda>a. Inr (int a))))
             (\<lambda>constant. Inr (DummyConstant constant))
         else bind_err (svc (np_mask msk Xt_tr) yq) (\<lambda>qclf. Inr (QtySVC qclf)))"



section \<open>The grouped split\<close>

text \<open>
  Modelled from the spec: the grouped split (the specification's GroupedCrossValidator,
  \<open>plan(groups, k)\<close>) is \<^verbatim>\<open>GroupKFold(n_splits).split(X, y, groups)\<close> of
  scikit-learn, which lines 203 and 209 call and which is not part of the sources.  As
  the specification says, the plan gives every group one fold and every row the fold of
  its group, and fails when there are fewer groups than folds.  The choice of the fold of
  a group follows scikit-learn: the groups are numbered in sorted order (\<^verbatim>\<open>np.unique\<close>
  with \<^verbatim>\<open>return_inverse\<close>), weighted by their number of rows, and taken from the
  largest to the smallest (\<^verbatim>\<open>np.argsort\<close>, the parameter \<open>argsort\<close>, reversed); each
  goes to the fold that is lightest so far (\<^verbatim>\<open>argmin\<close>).  A row is in the test set
  of the fold of its group, and in the training set of every other fold.  ValueError:
  fewer than 2 splits, \<open>y\<close> or \<open>groups\<close> not as long as \<open>X\<close> (\<open>n_y\<close> and
  \<open>n_samples\<close> are the numbers of rows of \<open>y\<close> and \<open>X\<close>), more splits than groups.
  The indices that \<^verbatim>\<open>np.argsort\<close> returns are indices of the array it is given, so the
  reads and writes at them lie inside the arrays.
\<close>

definition index_in :: "'a list \<Rightarrow> 'a \<Rightarrow> nat" where
  "index_in us g = length (takeWhile (\<lambda>u. u \<noteq> g) us)"

fun assign_folds :: "(nat \<times> nat) list \<Rightarrow> nat list \<Rightarrow> nat list \<Rightarrow> error + nat list" where
  "assign_folds [] n_samples_per_fold group_to_fold = Inr group_to_fold"
| "assign_folds ((g, weight) # rest) n_samples_per_fold group_to_fold =
     bind_err (argmin n_samples_per_fold)
       (\<lambda>lightest_fold.
          assign_folds rest
            (n_samples_per_fold[lightest_fold := n_samples_per_fold ! lightest_fold + weight])
            (group_to_fold[g := lightest_fold]))"

definition group_kfold ::
  "(nat list \<Rightarrow> nat list) \<Rightarrow> nat \<Rightarrow> 'g::linorder list \<Rightarrow> error + nat list" where
  "group_kfold argsort n_splits groups =
     (let unique_groups = np_unique groups;
          group_idx = map (index_in unique_groups) groups;
          n_groups = length unique_groups
      in if n_groups < n_splits then Inl ValueError
         else
           (let n_samples_per_group = map (count_list group_idx) [0..<n_groups];
                indices = rev (argsort n_samples_per_group);
                weights = map ((!) n_samples_per_group) indices
            in bind_err
                 (assign_folds (zip indices weights) (replicate n_splits 0) (replicate n_groups 0))
                 (\<lambda>group_to_fold. Inr (map ((!) group_to_fold) group_idx))))"

definition group_kfold_split ::
  "(nat list \<Rightarrow> nat list) \<Rightarrow> nat \<Rightarrow> 'g::linorder list \<Rightarrow> nat \<Rightarrow> nat \<Rightarrow>
     error + (nat list \<times> nat list) list" where
  "group_kfold_split argsort n_splits groups n_samples n_y =
     (if n_splits \<le> 1 \<or> n_y \<noteq> n_samples \<or> length groups \<noteq> n_samples \<or> n_samples < n_splits
      then Inl ValueError
      else bind_err (group_kfold argsort n_splits groups)
             (\<lambda>fold_of. Inr (map (\<lambda>f. (filter (\<lambda>i. fold_of ! i \<noteq> f) [0..<n_samples],
                                         filter (\<lambda>i. fold_of ! i = f) [0..<n_samples]))
                                [0..<n_splits])))"

text \<open>The validation set of fold \<open>f\<close> of a fold plan (its training set is the first component).\<close>

definition val_set :: "(nat list \<times> nat list) list \<Rightarrow> nat \<Rightarrow> nat set" where
  "val_set folds f = set (snd (folds ! f))"

section \<open>Cross-validation: \<^verbatim>\<open>cross_validate_transformed\<close>\<close>

text \<open>
  The learners of scikit-learn are parameters of the model: fitting the \<^verbatim>\<open>LinearSVC\<close> of
  Stage 1, calibrating it with \<^verbatim>\<open>cv=3\<close> and with \<^verbatim>\<open>cv="prefit"\<close> (each gives the
  function from a feature row to the probability of class 1), and fitting the
  \<^verbatim>\<open>LinearSVC\<close> of Stage 2.  Each may raise.
\<close>

record ('x, 'm) learners =
  fit_svc :: "'x list \<Rightarrow> int list \<Rightarrow> error + 'm"
  calibrate_cv :: "'m \<Rightarrow> 'x list \<Rightarrow> int list \<Rightarrow> error + ('x \<Rightarrow> real)"
  calibrate_prefit :: "'m \<Rightarrow> 'x list \<Rightarrow> int list \<Rightarrow> error + ('x \<Rightarrow> real)"
  fit_qty_svc :: "'x list \<Rightarrow> int list \<Rightarrow> error + ('x \<Rightarrow> int)"

text \<open>Lines 219 to 227: the \<^verbatim>\<open>try\<close> falls back to the prefit calibration on ValueError only.\<close>

definition fit_presence ::
  "('x, 'm) learners \<Rightarrow> 'x list \<Rightarrow> int list \<Rightarrow> error + ('x \<Rightarrow> real)" where
  "fit_presence L Xt_tr y_tr =
     bind_err (fit_svc L Xt_tr y_tr)
       (\<lambda>base. case calibrate_cv L base Xt_tr y_tr of
                  Inr calib \<Rightarrow> Inr calib
                | Inl e \<Rightarrow> (if e = ValueError then calibrate_prefit L base Xt_tr y_tr else Inl e))"

text \<open>
  The assignment \<^verbatim>\<open>m[rows, lbl] = vals\<close>, and the matrix of zeros of the shape of
  another matrix.  The number of columns of a matrix, \<^verbatim>\<open>m.shape[1]\<close>, is read from its
  first row.  The rows of a fold and the labels of the loops lie inside the matrices when
  \<open>Xt\<close>, \<open>Y_bin\<close> and \<open>Y_cnt\<close> have the same number of rows and \<open>Y_bin\<close> and
  \<open>Y_cnt\<close> the same shape, as \<^verbatim>\<open>main\<close> builds them; an assignment outside the
  matrix, an IndexError of numpy, changes nothing here.
\<close>

definition set_column :: "nat list \<Rightarrow> nat \<Rightarrow> 'a list \<Rightarrow> 'a list list \<Rightarrow> 'a list list" where
  "set_column rows lbl vals m = fold (\<lambda>(i, v) m. m[i := (m ! i)[lbl := v]]) (zip rows vals) m"

definition zeros_like :: "'b list list \<Rightarrow> 'a::zero list list" where
  "zeros_like m = map (\<lambda>row. replicate (length row) 0) m"

definition ncols :: "'a list list \<Rightarrow> nat" where
  "ncols m = (case m of [] \<Rightarrow> 0 | row # _ \<Rightarrow> length row)"

text \<open>Stage 1 for one label of one fold, lines 215 to 229, and the loop over the labels.\<close>

definition stage1_label ::
  "('x, 'm) learners \<Rightarrow> 'x list \<Rightarrow> int list list \<Rightarrow> nat list \<Rightarrow> nat list \<Rightarrow> nat \<Rightarrow>
     real list list \<Rightarrow> error + real list list" where
  "stage1_label L Xt Y_bin tr te lbl proba =
     (let y_tr = map (\<lambda>i. Y_bin ! i ! lbl) tr
      in if length (np_unique y_tr) < 2 then Inr proba
         else bind_err (fit_presence L (map ((!) Xt) tr) y_tr)
                (\<lambda>calib. Inr (set_column te lbl (map calib (map ((!) Xt) te)) proba)))"

fun stage1_loop ::
  "('x, 'm) learners \<Rightarrow> 'x list \<Rightarrow> int list list \<Rightarrow> nat list \<Rightarrow> nat list \<Rightarrow> nat list \<Rightarrow>
     real list list \<Rightarrow> error + real list list" where
  "stage1_loop L Xt Y_bin tr te [] proba = Inr proba"
| "stage1_loop L Xt Y_bin tr te (lbl # lbls) proba =
     bind_err (stage1_label L Xt Y_bin tr te lbl proba) (stage1_loop L Xt Y_bin tr te lbls)"

text \<open>Stage 2 for one label of one fold, lines 233 to 248, and the loop over the labels.\<close>

definition stage2_label ::
  "('x, 'm) learners \<Rightarrow> 'x list \<Rightarrow> int list list \<Rightarrow> nat list \<Rightarrow> nat list \<Rightarrow> nat \<Rightarrow>
     int list list \<Rightarrow> error + int list list" where
  "stage2_label L Xt Y_cnt tr te lbl qty_pred =
     bind_err (fit_quantity_fold (fit_qty_svc L) (map ((!) Xt) tr) (map (\<lambda>i. Y_cnt ! i ! lbl) tr))
       (\<lambda>model. Inr (set_column te lbl (predict_qty model (map ((!) Xt) te)) qty_pred))"

fun stage2_loop ::
  "('x, 'm) learners \<Rightarrow> 'x list \<Rightarrow> int list list \<Rightarrow> nat list \<Rightarrow> nat list \<Rightarrow> nat list \<Rightarrow>
     int list list \<Rightarrow> error + int list list" where
  "stage2_loop L Xt Y_cnt tr te [] qty_pred = Inr qty_pred"
| "stage2_loop L Xt Y_cnt tr te (lbl # lbls) qty_pred =
     bind_err (stage2_label L Xt Y_cnt tr te lbl qty_pred) (stage2_loop L Xt Y_cnt tr te lbls)"

text \<open>
  One fold, lines 209 to 251, on the state \<open>(proba, qty_pred)\<close>, and the loop over the
  folds.  The metrics of lines 253 to 260 read the two matrices and change neither; they
  are not part of the state.  \<open>argsort\<close> is \<^verbatim>\<open>np.argsort\<close> on a row of probabilities,
  in the safeguard, and \<open>argsort_int\<close> is \<^verbatim>\<open>np.argsort\<close> on the group sizes, in the
  grouped split.
\<close>

definition cv_fold ::
  "(real list \<Rightarrow> nat list) \<Rightarrow> ('x, 'm) learners \<Rightarrow> 'x list \<Rightarrow> int list list \<Rightarrow> int list list \<Rightarrow> nat list \<times> nat list \<Rightarrow>
     real list list \<times> int list list \<Rightarrow> error + real list list \<times> int list list" where
  "cv_fold argsort L Xt Y_bin Y_cnt tr_te st =
     (case (tr_te, st) of ((tr, te), (proba, qty_pred)) \<Rightarrow>
        bind_err (stage1_loop L Xt Y_bin tr te [0..<ncols Y_bin] proba)
          (\<lambda>proba'. bind_err (stage2_loop L Xt Y_cnt tr te [0..<ncols Y_cnt] qty_pred)
             (\<lambda>qty'. bind_err (apply_quantity_safeguard argsort proba' qty' TOP_K)
                (\<lambda>qty''. Inr (proba', qty'')))))"

fun cv_folds ::
  "(real list \<Rightarrow> nat list) \<Rightarrow> ('x, 'm) learners \<Rightarrow> 'x list \<Rightarrow> int list list \<Rightarrow> int list list \<Rightarrow> (nat list \<times> nat list) list \<Rightarrow>
     real list list \<times> int list list \<Rightarrow> error + real list list \<times> int list list" where
  "cv_folds argsort L Xt Y_bin Y_cnt [] st = Inr st"
| "cv_folds argsort L Xt Y_bin Y_cnt (tr_te # folds) st =
     bind_err (cv_fold argsort L Xt Y_bin Y_cnt tr_te st) (cv_folds argsort L Xt Y_bin Y_cnt folds)"

definition cross_validate_transformed ::
  "(real list \<Rightarrow> nat list) \<Rightarrow> (nat list \<Rightarrow> nat list) \<Rightarrow> ('x, 'm) learners \<Rightarrow> 'x list \<Rightarrow>
     int list list \<Rightarrow> int list list \<Rightarrow> 'g::linorder list \<Rightarrow> error + real list list \<times> int list list" where
  "cross_validate_transformed argsort argsort_int L Xt Y_bin Y_cnt groups =
     bind_err (group_kfold_split argsort_int K_FOLDS groups (length Xt) (length Y_bin))
       (\<lambda>folds. cv_folds argsort L Xt Y_bin Y_cnt folds (zeros_like Y_bin, zeros_like Y_cnt))"

text \<open>Stage 1 skips a label whose training column has fewer than 2 distinct values.\<close>

definition skipped :: "int list list \<Rightarrow> nat list \<Rightarrow> nat \<Rightarrow> bool" where
  "skipped Y_bin tr lbl = (length (np_unique (map (\<lambda>i. Y_bin ! i ! lbl) tr)) < 2)"

section \<open>Properties\<close>


lemma set_np_where_eq: "set (np_where_eq row v) = {l. l < length row \<and> row ! l = v}"
  by (auto simp: np_where_eq_def)

lemma set_np_where_one: "set (np_where_eq row 1) = label_set row"
  by (simp add: set_np_where_eq label_set_def)

lemma finite_label_set: "finite (label_set row)"
  by (simp add: label_set_def)

lemma label_set_code: "label_set row = set (np_where_eq row 1)"
  by (simp add: set_np_where_one)

lemma zip_as_indices:
  "length ys \<le> length tk \<Longrightarrow> zip ys tk = map (\<lambda>i. (ys ! i, tk ! i)) [0..<length ys]"
  by (rule nth_equalityI) simp_all

subsection \<open>\<^verbatim>\<open>iou_score\<close>\<close>

lemma iou_row_label_set:
  "iou_row yt yp =
     (if label_set yt = {} \<and> label_set yp = {} then 1
      else real (card (label_set yt \<inter> label_set yp)) / real (card (label_set yt \<union> label_set yp)))"
  by (simp add: iou_row_def set_np_where_one Let_def)

lemma iou_loop_closed:
  "length ys \<le> length ps \<Longrightarrow>
   iou_loop ys ps scores = Inr (scores @ map (\<lambda>(t, p). iou_row t p) (zip ys ps))"
proof (induction ys ps scores rule: iou_loop.induct)
  case (1 yp scores)
  show ?case by simp
next
  case (2 t ts scores)
  then show ?case by simp
next
  case (3 t ts p ps scores)
  then show ?case by simp
qed

lemma iou_loop_rows:
  assumes "length y_true \<le> length y_pred"
  shows "iou_loop y_true y_pred [] =
    Inr (map (\<lambda>i. iou_row (y_true ! i) (y_pred ! i)) [0..<length y_true])"
  by (simp add: iou_loop_closed [OF assms] zip_as_indices [OF assms] comp_def)

text \<open>
  C6: when the prediction matrix has a row for each row of the truth matrix,
  \<open>iou_score\<close> is the mean of one score per row, and the score of row \<open>i\<close> is 1 when
  truth and prediction are both empty, 1 when both are the same singleton, 0 when they
  are different singletons, and the size of the intersection over the size of the union
  in every other case.
\<close>

theorem iou_score_rows:
  assumes "length y_true \<le> length y_pred"
  shows "\<exists>scores. iou_loop y_true y_pred [] = Inr scores \<and>
           iou_score y_true y_pred = Inr (np_mean scores) \<and>
           length scores = length y_true \<and>
           (\<forall>i < length y_true.
              (label_set (y_true ! i) = {} \<and> label_set (y_pred ! i) = {} \<longrightarrow> scores ! i = 1) \<and>
              (\<forall>a. label_set (y_true ! i) = {a} \<and> label_set (y_pred ! i) = {a} \<longrightarrow> scores ! i = 1) \<and>
              (\<forall>a b. label_set (y_true ! i) = {a} \<and> label_set (y_pred ! i) = {b} \<and> a \<noteq> b \<longrightarrow>
                 scores ! i = 0) \<and>
              (\<not> (label_set (y_true ! i) = {} \<and> label_set (y_pred ! i) = {}) \<longrightarrow>
                 scores ! i =
                   real (card (label_set (y_true ! i) \<inter> label_set (y_pred ! i)))
                     / real (card (label_set (y_true ! i) \<union> label_set (y_pred ! i)))))"
proof -
  let ?s = "map (\<lambda>i. iou_row (y_true ! i) (y_pred ! i)) [0..<length y_true]"
  have l: "iou_loop y_true y_pred [] = Inr ?s"
    by (rule iou_loop_rows [OF assms])
  have s: "iou_score y_true y_pred = Inr (np_mean ?s)"
    by (simp add: iou_score_def l bind_err_def)
  have n: "length ?s = length y_true" by simp
  have c: "\<forall>i < length y_true.
      (label_set (y_true ! i) = {} \<and> label_set (y_pred ! i) = {} \<longrightarrow> ?s ! i = 1) \<and>
      (\<forall>a. label_set (y_true ! i) = {a} \<and> label_set (y_pred ! i) = {a} \<longrightarrow> ?s ! i = 1) \<and>
      (\<forall>a b. label_set (y_true ! i) = {a} \<and> label_set (y_pred ! i) = {b} \<and> a \<noteq> b \<longrightarrow>
         ?s ! i = 0) \<and>
      (\<not> (label_set (y_true ! i) = {} \<and> label_set (y_pred ! i) = {}) \<longrightarrow>
         ?s ! i =
           real (card (label_set (y_true ! i) \<inter> label_set (y_pred ! i)))
             / real (card (label_set (y_true ! i) \<union> label_set (y_pred ! i))))"
    by (simp add: iou_row_label_set)
  show ?thesis
    by (rule exI [of _ ?s]) (intro conjI l s n c)
qed

theorem iou_score_rows_witness:
  "length [[0, 0, 0], [0, 1, 0], [0, 1, 0], [1, 1, 0::int]]
     \<le> length [[0, 0, 0], [0, 1, 0], [1, 0, 0], [0, 1, 1::int]] \<and>
   iou_loop [[0, 0, 0], [0, 1, 0], [0, 1, 0], [1, 1, 0]]
     [[0, 0, 0], [0, 1, 0], [1, 0, 0], [0, 1, 1]] [] = Inr [1, 1, 0, 1 / 3] \<and>
   iou_score [[0, 0, 0], [0, 1, 0], [0, 1, 0], [1, 1, 0]]
     [[0, 0, 0], [0, 1, 0], [1, 0, 0], [0, 1, 1]] = Inr (Val (7 / 12)) \<and>
   label_set [0, 1, 0] = {1} \<and> label_set [1, 0, 0] = {0} \<and>
   label_set [1, 1, 0] = {0, 1} \<and> label_set [0, 1, 1] = {1, 2}"
proof -
  let ?Y = "[[0, 0, 0], [0, 1, 0], [0, 1, 0], [1, 1, 0::int]]"
  let ?P = "[[0, 0, 0], [0, 1, 0], [1, 0, 0], [0, 1, 1::int]]"
  have h: "length ?Y \<le> length ?P" by simp
  have e: "label_set [0, 0, 0] = {}" "label_set [0, 1, 0] = {1}" "label_set [1, 0, 0] = {0}"
    "label_set [1, 1, 0] = {0, 1}" "label_set [0, 1, 1] = {1, 2}"
    by (simp_all add: label_set_code np_where_eq_def upt_rec [of _ "Suc _"]
        upt_rec [of _ "numeral _"] insert_commute numeral_2_eq_2)
  have c: "{0, 1} \<inter> {1, 2::nat} = {1}" "{0, 1} \<union> {1, 2::nat} = {0, 1, 2}"
    by auto
  have v: "iou_loop ?Y ?P [] = Inr [1, 1, 0, 1 / 3]"
    unfolding iou_loop.simps iou_row_label_set e c by simp
  from iou_score_rows [OF h] obtain scores where
    l: "iou_loop ?Y ?P [] = Inr scores" and s: "iou_score ?Y ?P = Inr (np_mean scores)"
    by blast
  from l v have sc: "scores = [1, 1, 0, 1 / 3]" by simp
  have m: "np_mean [1, 1, 0, 1 / 3] = Val (7 / 12)" by (simp add: np_mean_def)
  from s have r: "iou_score ?Y ?P = Inr (Val (7 / 12))" unfolding sc m .
  show ?thesis
    by (intro conjI h v r e(2-5))
qed
subsection \<open>\<^verbatim>\<open>make_targets\<close>\<close>

lemma fold_upd_lookup:
  "fold (\<lambda>(p, q) m. m(p \<mapsto> q)) ps m0 k =
     (case map_of (rev ps) k of None \<Rightarrow> m0 k | Some v \<Rightarrow> Some v)"
  by (induction ps arbitrary: m0) (auto split: option.splits)

lemma zip_dict_map_of: "zip_dict ps qs k = map_of (rev (zip ps qs)) k"
  by (simp add: zip_dict_def fold_upd_lookup split: option.splits)

lemma zip_dict_None: "length qs = length ps \<Longrightarrow> (zip_dict ps qs k = None) = (k \<notin> set ps)"
proof -
  assume len: "length qs = length ps"
  then have "rev (zip ps qs) = zip (rev ps) (rev qs)" by (simp add: zip_rev)
  moreover have "(map_of (zip (rev ps) (rev qs)) k = None) = (k \<notin> set (rev ps))"
    using len by (intro map_of_zip_is_None) simp
  ultimately show ?thesis by (simp add: zip_dict_map_of)
qed

lemma zip_dict_Some: "zip_dict ps qs k = Some v \<Longrightarrow> v \<in> set qs"
  by (auto simp: zip_dict_map_of dest!: map_of_SomeD set_zip_rightD)

lemma cnt_vec_entry: "v \<in> set (cnt_vec classes r) \<Longrightarrow> v = 0 \<or> v \<in> set (quantity r)"
  by (auto simp: cnt_vec_def Let_def dest: zip_dict_Some split: option.splits)

lemma astype_int_fits:
  "\<forall>v \<in> set (concat m). - (2 ^ 63) \<le> v \<and> v < 2 ^ 63 \<Longrightarrow> astype_int cast_float64 m = Inr m"
  unfolding astype_int_def Let_def by (rule if_P)

text \<open>
  C1, as amended: when every row's quantity list is as long as its label list and holds
  only positive integers below \<open>2^63\<close>, \<open>make_targets\<close> returns, and a cell of
  \<open>Y_cnt\<close> is positive exactly when the same cell of \<open>Y_bin\<close> is one.
\<close>

theorem make_targets_cnt_iff_bin:
  assumes "\<forall>r \<in> set df. length (quantity r) = length (target r) \<and>
             (\<forall>q \<in> set (quantity r). 0 < q \<and> q < 2 ^ 63)"
  shows "\<exists>X Y_bin Y_cnt classes.
           make_targets cast_float64 df = Inr (X, Y_bin, Y_cnt, classes) \<and>
           (\<forall>i < length df. \<forall>l < length classes. (0 < Y_cnt ! i ! l) = (Y_bin ! i ! l = 1))"
proof -
  let ?classes = "mlb_classes (map target df)"
  let ?Yb = "mlb_transform ?classes (map target df)"
  let ?Yc = "map (cnt_vec ?classes) df"
  have fits: "\<forall>v \<in> set (concat ?Yc). - (2 ^ 63) \<le> v \<and> v < 2 ^ 63"
  proof
    fix v assume "v \<in> set (concat ?Yc)"
    then obtain r where r: "r \<in> set df" and v: "v \<in> set (cnt_vec ?classes r)" by auto
    from cnt_vec_entry [OF v] have "v = 0 \<or> v \<in> set (quantity r)" .
    then show "- (2 ^ 63) \<le> v \<and> v < 2 ^ 63"
    proof
      assume "v = 0"
      then show ?thesis by simp
    next
      assume "v \<in> set (quantity r)"
      with assms r have "0 < v \<and> v < 2 ^ 63" by blast
      then show ?thesis by simp
    qed
  qed
  have m: "make_targets cast_float64 df =
      Inr (map (\<lambda>r. (instructions r, asset r)) df, ?Yb, ?Yc, ?classes)"
    by (simp add: make_targets_def Let_def astype_int_fits [OF fits] bind_err_def)
  have c: "(0 < ?Yc ! i ! l) = (?Yb ! i ! l = 1)" if i: "i < length df" and l: "l < length ?classes"
    for i l
  proof -
    let ?r = "df ! i"
    from assms i have al: "length (quantity ?r) = length (target ?r)"
      and pos: "\<forall>q \<in> set (quantity ?r). 0 < q" by auto
    have b: "?Yb ! i ! l = (if ?classes ! l \<in> set (target ?r) then 1 else 0)"
      using i l by (simp add: mlb_transform_def)
    have c: "?Yc ! i ! l =
        (case zip_dict (target ?r) (quantity ?r) (?classes ! l) of None \<Rightarrow> 0 | Some q \<Rightarrow> q)"
      using i l by (simp add: cnt_vec_def)
    show ?thesis
    proof (cases "zip_dict (target ?r) (quantity ?r) (?classes ! l)")
      case None
      with zip_dict_None [OF al, of "?classes ! l"] show ?thesis by (simp add: b c)
    next
      case (Some v)
      with zip_dict_None [OF al, of "?classes ! l"] have "?classes ! l \<in> set (target ?r)" by auto
      moreover from zip_dict_Some [OF Some] pos have "0 < v" by auto
      ultimately show ?thesis using Some by (simp add: b c)
    qed
  qed
  from m c show ?thesis by blast
qed

theorem make_targets_cnt_iff_bin_witness:
  "make_targets (\<lambda>m. m)
     [\<lparr>instructions = ''skift filter'', asset = ''pumpe'', work_order = (7::nat),
        target = [20, 10::nat], quantity = [2, 3]\<rparr>,
      \<lparr>instructions = ''rens ventil'', asset = ''ventil'', work_order = 8,
        target = [30], quantity = [1]\<rparr>]
   = Inr ([(''skift filter'', ''pumpe''), (''rens ventil'', ''ventil'')],
      [[1, 1, 0], [0, 0, 1]], [[3, 2, 0], [0, 0, 1]], [10, 20, 30]) \<and>
   (0 < [[3, 2, 0], [0, 0, 1::int]] ! 0 ! 1) = ([[1, 1, 0], [0, 0, 1::int]] ! 0 ! 1 = 1) \<and>
   (0 < [[3, 2, 0], [0, 0, 1::int]] ! 1 ! 0) = ([[1, 1, 0], [0, 0, 1::int]] ! 1 ! 0 = 1)"
proof -
  let ?df = "[\<lparr>instructions = ''skift filter'', asset = ''pumpe'', work_order = (7::nat),
        target = [20, 10::nat], quantity = [2, 3]\<rparr>,
      \<lparr>instructions = ''rens ventil'', asset = ''ventil'', work_order = 8,
        target = [30], quantity = [1]\<rparr>]"
  have e: "make_targets (\<lambda>m. m) ?df =
      Inr ([(''skift filter'', ''pumpe''), (''rens ventil'', ''ventil'')],
      [[1, 1, 0], [0, 0, 1]], [[3, 2, 0], [0, 0, 1]], [10, 20, 30])"
    by (simp add: make_targets_def mlb_classes_def mlb_transform_def cnt_vec_def zip_dict_def
        astype_int_def bind_err_def)
  have h: "\<forall>r \<in> set ?df. length (quantity r) = length (target r) \<and>
      (\<forall>q \<in> set (quantity r). 0 < q \<and> q < 2 ^ 63)"
    by simp
  from make_targets_cnt_iff_bin [OF h, of "\<lambda>m. m"] obtain X Y_bin Y_cnt classes where
    m: "make_targets (\<lambda>m. m) ?df = Inr (X, Y_bin, Y_cnt, classes)"
    and p: "\<forall>i < length ?df. \<forall>l < length classes. (0 < Y_cnt ! i ! l) = (Y_bin ! i ! l = 1)"
    by blast
  from m e have yb: "Y_bin = [[1, 1, 0], [0, 0, 1]]" and yc: "Y_cnt = [[3, 2, 0], [0, 0, 1]]"
    and cl: "classes = [10, 20, 30]" by simp_all
  have a: "(0 < [[3, 2, 0], [0, 0, 1::int]] ! 0 ! 1) = ([[1, 1, 0], [0, 0, 1::int]] ! 0 ! 1 = 1)"
    using p [rule_format, of 0 1] unfolding yb yc cl by simp
  have b: "(0 < [[3, 2, 0], [0, 0, 1::int]] ! 1 ! 0) = ([[1, 1, 0], [0, 0, 1::int]] ! 1 ! 0 = 1)"
    using p [rule_format, of 1 0] unfolding yb yc cl by simp
  from e a b show ?thesis by (intro conjI)
qed

text \<open>
  The claim as stated fails from \<open>2^63\<close>: a dataframe of one row with the one label 10
  and the quantity \<open>2^63\<close>, aligned and positive, gives an array of unsigned 64-bit
  integers, and the cast of line 160 wraps the quantity to \<open>-2^63\<close>; the cell of
  \<open>Y_cnt\<close> is negative where the cell of \<open>Y_bin\<close> is one.
\<close>

theorem make_targets_wraps_counterexample:
  "length [2 ^ 63 :: int] = length [10 :: nat] \<and> (0 :: int) < 2 ^ 63 \<and>
   (\<forall>cast_float64.
      make_targets cast_float64
        [\<lparr>instructions = ''skift filter'', asset = ''pumpe'', work_order = (7::nat),
           target = [10::nat], quantity = [2 ^ 63]\<rparr>]
      = Inr ([(''skift filter'', ''pumpe'')], [[1]], [[- (2 ^ 63)]], [10])) \<and>
   \<not> 0 < [[- (2 ^ 63) :: int]] ! 0 ! 0 \<and> [[1 :: int]] ! 0 ! 0 = 1"
  by (simp add: make_targets_def mlb_classes_def mlb_transform_def cnt_vec_def zip_dict_def
      astype_int_def bind_err_def)

subsection \<open>The quantity safeguard\<close>

lemma length_upd_row [simp]: "length (upd_row js row) = length row"
  by (simp add: upd_row_def)

lemma nth_upd_row:
  "j < length row \<Longrightarrow> upd_row js row ! j = (if j \<in> set js \<and> row ! j = 0 then 1 else row ! j)"
  by (simp add: upd_row_def)

lemma upd_row_Nil [simp]: "upd_row [] row = row"
  by (rule nth_equalityI) (simp_all add: nth_upd_row)

lemma upd_row_Cons:
  assumes "j < length row"
  shows "upd_row (j # js) row = upd_row js (if row ! j = 0 then row[j := 1] else row)"
proof (rule nth_equalityI)
  show "length (upd_row (j # js) row) = length (upd_row js (if row ! j = 0 then row[j := 1] else row))"
    by simp
next
  fix i assume "i < length (upd_row (j # js) row)"
  then have i: "i < length row" by simp
  show "upd_row (j # js) row ! i = upd_row js (if row ! j = 0 then row[j := 1] else row) ! i"
    using i assms by (simp add: nth_upd_row nth_list_update)
qed

lemma upd_row_idem: "upd_row js (upd_row js row) = upd_row js row"
  by (rule nth_equalityI) (simp_all add: nth_upd_row)

lemma safeguard_idxs_char:
  "safeguard_idxs i js qty =
     (if js = [] \<or> (i < length qty \<and> (\<forall>j \<in> set js. j < length (qty ! i)))
      then Inr (qty[i := upd_row js (qty ! i)]) else Inl IndexError)"
proof (induction js arbitrary: qty)
  case Nil
  show ?case by simp
next
  case (Cons j js)
  show ?case
  proof (cases "i < length qty \<and> j < length (qty ! i)")
    case False
    then show ?thesis by (auto simp: safeguard_cell_def bind_err_def)
  next
    case True
    define q1 where "q1 = (if qty ! i ! j = 0 then qty[i := (qty ! i)[j := 1]] else qty)"
    have c: "safeguard_cell i j qty = Inr q1" using True by (simp add: safeguard_cell_def q1_def)
    have l1: "length q1 = length qty" by (simp add: q1_def)
    have r1: "q1 ! i = (if qty ! i ! j = 0 then (qty ! i)[j := 1] else qty ! i)"
      using True by (simp add: q1_def)
    have len1: "length (q1 ! i) = length (qty ! i)" using r1 by simp
    have u: "q1[i := upd_row js (q1 ! i)] = qty[i := upd_row (j # js) (qty ! i)]"
      using True unfolding r1 upd_row_Cons [of j "qty ! i" js, OF conjunct2 [OF True]]
      by (simp add: q1_def)
    have "safeguard_idxs i (j # js) qty = safeguard_idxs i js q1"
      by (simp add: c bind_err_def)
    also have "\<dots> = (if js = [] \<or> (i < length q1 \<and> (\<forall>j \<in> set js. j < length (q1 ! i)))
      then Inr (q1[i := upd_row js (q1 ! i)]) else Inl IndexError)"
      by (rule Cons.IH)
    also have "\<dots> = (if j # js = [] \<or> (i < length qty \<and> (\<forall>j \<in> set (j # js). j < length (qty ! i)))
      then Inr (qty[i := upd_row (j # js) (qty ! i)]) else Inl IndexError)"
      unfolding u l1 len1 using True by auto
    finally show ?thesis .
  qed
qed

lemma rows_ok_Nil [simp]: "rows_ok i [] qty"
  by (simp add: rows_ok_def)

lemma upd_rows_Nil [simp]: "upd_rows i [] qty = qty"
  by (rule nth_equalityI) (auto simp: upd_rows_def)

lemma length_upd_rows [simp]: "length (upd_rows i tks qty) = length qty"
  by (simp add: upd_rows_def)

lemma nth_upd_rows:
  "r < length qty \<Longrightarrow> upd_rows i tks qty ! r =
     (if i \<le> r \<and> r < i + length tks then upd_row (tks ! (r - i)) (qty ! r) else qty ! r)"
  by (simp add: upd_rows_def)

lemma rows_ok_Cons:
  "rows_ok i (idxs # rest) qty =
     ((idxs = [] \<or> (i < length qty \<and> (\<forall>j \<in> set idxs. j < length (qty ! i)))) \<and>
      rows_ok (Suc i) rest (qty[i := upd_row idxs (qty ! i)]))"
  by (simp add: rows_ok_def All_less_Suc2 nth_list_update)

lemma upd_rows_Cons:
  "upd_rows (Suc i) rest (qty[i := upd_row idxs (qty ! i)]) = upd_rows i (idxs # rest) qty"
proof (rule nth_equalityI)
  show "length (upd_rows (Suc i) rest (qty[i := upd_row idxs (qty ! i)])) =
    length (upd_rows i (idxs # rest) qty)" by simp
next
  fix r assume "r < length (upd_rows (Suc i) rest (qty[i := upd_row idxs (qty ! i)]))"
  then have r: "r < length qty" by simp
  show "upd_rows (Suc i) rest (qty[i := upd_row idxs (qty ! i)]) ! r =
    upd_rows i (idxs # rest) qty ! r"
  proof (cases "r = i")
    case True
    then show ?thesis using r by (simp add: nth_upd_rows)
  next
    case False
    have "i < r \<Longrightarrow> (idxs # rest) ! (r - i) = rest ! (r - Suc i)"
      by (cases "r - i") (simp_all add: Suc_diff_Suc [symmetric] del: Suc_diff_Suc)
    then show ?thesis using r False by (auto simp: nth_upd_rows)
  qed
qed

lemma safeguard_rows_char:
  "safeguard_rows i tks qty =
     (if rows_ok i tks qty then Inr (upd_rows i tks qty) else Inl IndexError)"
proof (induction tks arbitrary: i qty)
  case Nil
  show ?case by simp
next
  case (Cons idxs rest)
  show ?case
    unfolding safeguard_rows.simps safeguard_idxs_char rows_ok_Cons
    by (simp add: bind_err_def Cons.IH upd_rows_Cons)
qed

lemma rows_ok_upd_rows: "rows_ok i tks qty \<Longrightarrow> rows_ok i tks (upd_rows j tks' qty)"
  by (auto simp: rows_ok_def nth_upd_rows)

lemma upd_rows_idem: "upd_rows i tks (upd_rows i tks qty) = upd_rows i tks qty"
  by (rule nth_equalityI) (simp_all add: nth_upd_rows upd_row_idem)

subsection \<open>The top-\<open>k\<close> labels\<close>

lemma sorts_row_stable_argsort: "sorts_row stable_argsort row"
  by (simp add: sorts_row_def stable_argsort_def)

lemma sorts_rows_stable_argsort: "sorts_rows stable_argsort proba"
  by (simp add: sorts_rows_def sorts_row_stable_argsort)

lemma topk_row_is_topk_set:
  assumes "sorts_row argsort row" and "0 < k"
  shows "is_topk_set k row (set (topk_row argsort k row))"
proof -
  let ?xs = "argsort row"
  let ?m = "length ?xs - k"
  from assms(1) have s: "set ?xs = {0..<length row}" and d: "distinct ?xs"
    and o: "sorted (map ((!) row) ?xs)"
    by (simp_all add: sorts_row_def)
  have len: "length ?xs = length row"
    using distinct_card [OF d] s by simp
  have tk: "topk_row argsort k row = drop ?m ?xs"
    using assms(2) by (simp add: topk_row_def slice_last_def)
  have sub: "set (drop ?m ?xs) \<subseteq> {0..<length row}"
    using set_drop_subset [of ?m ?xs] s by simp
  have "distinct (drop ?m ?xs)" using d by simp
  then have "card (set (drop ?m ?xs)) = length (drop ?m ?xs)" by (rule distinct_card)
  then have card: "card (set (drop ?m ?xs)) = min k (length row)"
    by (simp add: len)
  have ord: "row ! b \<le> row ! a"
    if a: "a \<in> set (drop ?m ?xs)" and b: "b \<in> {0..<length row} - set (drop ?m ?xs)" for a b
  proof -
    have "set ?xs = set (take ?m ?xs) \<union> set (drop ?m ?xs)"
      by (metis append_take_drop_id set_append)
    with b s have bt: "b \<in> set (take ?m ?xs)" by blast
    have "sorted (map ((!) row) (take ?m ?xs) @ map ((!) row) (drop ?m ?xs))"
      using o by (simp only: map_append [symmetric] append_take_drop_id)
    then have "\<forall>x \<in> set (map ((!) row) (take ?m ?xs)). \<forall>y \<in> set (map ((!) row) (drop ?m ?xs)). x \<le> y"
      unfolding sorted_append by (rule conjunct2 [THEN conjunct2])
    moreover from bt have "row ! b \<in> set (map ((!) row) (take ?m ?xs))" by simp
    moreover from a have "row ! a \<in> set (map ((!) row) (drop ?m ?xs))" by simp
    ultimately show ?thesis by blast
  qed
  show ?thesis
    unfolding is_topk_set_def tk using sub card ord by blast
qed

lemma predicted_set_row:
  "i < length proba \<Longrightarrow> predicted_set argsort k proba i = set (topk_row argsort k (proba ! i))"
  by (simp add: predicted_set_def topk_def)

lemma predicted_set_is_topk:
  assumes "sorts_rows argsort proba" and "0 < k" and "i < length proba"
  shows "is_topk_set k (proba ! i) (predicted_set argsort k proba i)"
proof -
  from assms(1,3) have "sorts_row argsort (proba ! i)" by (simp add: sorts_rows_def)
  from topk_row_is_topk_set [OF this assms(2)] show ?thesis
    by (simp add: predicted_set_row [OF assms(3)])
qed

lemma rows_ok_covers:
  assumes "sorts_rows argsort (proba :: real list list)" and "0 < k" and "covers qty proba"
  shows "rows_ok 0 (topk argsort k proba) qty"
  unfolding rows_ok_def
proof (intro allI impI)
  fix t assume "t < length (topk argsort k proba)"
  then have t: "t < length proba" by (simp add: topk_def)
  with assms(3) have tq: "t < length qty" and len: "length (proba ! t) \<le> length (qty ! t)"
    by (simp_all add: covers_def)
  from predicted_set_is_topk [OF assms(1,2) t]
  have "predicted_set argsort k proba t \<subseteq> {0..<length (proba ! t)}"
    by (simp add: is_topk_set_def)
  with len have "\<forall>j \<in> set (topk argsort k proba ! t). j < length (qty ! t)"
    by (auto simp: predicted_set_def)
  with tq show "topk argsort k proba ! t = [] \<or>
    (0 + t < length qty \<and> (\<forall>j \<in> set (topk argsort k proba ! t). j < length (qty ! (0 + t))))"
    by simp
qed

text \<open>
  C3: let \<^verbatim>\<open>np.argsort\<close> sort every row of the probability matrix, \<open>k > 0\<close>, and the
  quantity matrix have no negative entry.  When the quantity matrix has a cell for
  every cell of the probability matrix, \<open>apply_quantity_safeguard\<close> returns a matrix;
  and in every matrix it returns, \<open>predicted_set(i)\<close> is a set of top-\<open>k\<close> labels of
  row \<open>i\<close> by probability and every label of it has a quantity of at least 1 in row
  \<open>i\<close>.
\<close>

theorem safeguard_topk_at_least_one:
  assumes "sorts_rows argsort proba" and "0 < k" and "nonneg_matrix qty_pred"
  shows "(covers qty_pred proba \<longrightarrow>
            (\<exists>qty'. apply_quantity_safeguard argsort proba qty_pred k = Inr qty')) \<and>
         (\<forall>qty'. apply_quantity_safeguard argsort proba qty_pred k = Inr qty' \<longrightarrow>
            (\<forall>i < length proba.
               is_topk_set k (proba ! i) (predicted_set argsort k proba i) \<and>
               (\<forall>l \<in> predicted_set argsort k proba i. 1 \<le> qty' ! i ! l)))"
proof -
  let ?tk = "topk argsort k proba"
  have ret: "\<exists>qty'. apply_quantity_safeguard argsort proba qty_pred k = Inr qty'"
    if "covers qty_pred proba"
    using rows_ok_covers [OF assms(1,2) that]
    by (simp add: apply_quantity_safeguard_def safeguard_rows_char)
  have one: "1 \<le> qty' ! i ! l"
    if r: "apply_quantity_safeguard argsort proba qty_pred k = Inr qty'"
      and i: "i < length proba" and l: "l \<in> predicted_set argsort k proba i" for qty' i l
  proof -
    from r have ok: "rows_ok 0 ?tk qty_pred" and q: "qty' = upd_rows 0 ?tk qty_pred"
      by (auto simp: apply_quantity_safeguard_def safeguard_rows_char split: if_splits)
    from l have ls: "l \<in> set (?tk ! i)" by (simp add: predicted_set_def)
    then have ne: "?tk ! i \<noteq> []" by auto
    from i have it: "i < length ?tk" by (simp add: topk_def)
    from ok it have "?tk ! i = [] \<or>
        (0 + i < length qty_pred \<and> (\<forall>j \<in> set (?tk ! i). j < length (qty_pred ! (0 + i))))"
      unfolding rows_ok_def by blast
    with ne ls have iq: "i < length qty_pred" and ll: "l < length (qty_pred ! i)" by auto
    from iq have "qty_pred ! i \<in> set qty_pred" by simp
    moreover from ll have "qty_pred ! i ! l \<in> set (qty_pred ! i)" by simp
    ultimately have nn: "0 \<le> qty_pred ! i ! l"
      using assms(3) unfolding nonneg_matrix_def by blast
    have "qty' ! i ! l = (if qty_pred ! i ! l = 0 then 1 else qty_pred ! i ! l)"
      using iq ll it ls by (simp add: q nth_upd_rows nth_upd_row)
    with nn show ?thesis by simp
  qed
  have tk: "is_topk_set k (proba ! i) (predicted_set argsort k proba i)" if "i < length proba" for i
    using that by (rule predicted_set_is_topk [OF assms(1,2)])
  from ret one tk show ?thesis by blast
qed

theorem safeguard_topk_at_least_one_witness:
  "sorts_rows stable_argsort [[9/10, 1/10, 3/10], [1/2, 2/10, 3/10::real]] \<and>
   nonneg_matrix [[0, 0, 0], [2, 0, 0]] \<and>
   covers [[0, 0, 0], [2, 0, 0::int]] [[9/10, 1/10, 3/10], [1/2, 2/10, 3/10::real]] \<and>
   apply_quantity_safeguard stable_argsort [[9/10, 1/10, 3/10], [1/2, 2/10, 3/10]]
     [[0, 0, 0], [2, 0, 0]] 2 = Inr [[1, 0, 1], [2, 0, 1]] \<and>
   predicted_set stable_argsort 2 [[9/10, 1/10, 3/10], [1/2, 2/10, 3/10]] 0 = {0, 2} \<and>
   is_topk_set 2 [9/10, 1/10, 3/10::real] {0, 2} \<and>
   (1::int) \<le> [[1, 0, 1], [2, 0, 1]] ! 0 ! 2"
proof -
  let ?P = "[[9/10, 1/10, 3/10], [1/2, 2/10, 3/10::real]]"
  let ?Q = "[[0, 0, 0], [2, 0, 0::int]]"
  have s: "sorts_rows stable_argsort ?P" by (rule sorts_rows_stable_argsort)
  have k: "0 < (2::nat)" by simp
  have n: "nonneg_matrix ?Q" by (simp add: nonneg_matrix_def)
  have c: "covers ?Q ?P" by (simp add: covers_def less_Suc_eq numeral_2_eq_2)
  have e: "apply_quantity_safeguard stable_argsort ?P ?Q 2 = Inr [[1, 0, 1], [2, 0, 1]]"
    by (simp add: apply_quantity_safeguard_def safeguard_cell_def bind_err_def topk_def
        topk_row_def slice_last_def stable_argsort_def upt_rec [of _ "Suc _"]
        upt_rec [of _ "numeral _"])
  have m: "predicted_set stable_argsort 2 ?P 0 = {0, 2}"
    by (simp add: predicted_set_def topk_def topk_row_def slice_last_def stable_argsort_def
        upt_rec [of _ "Suc _"] upt_rec [of _ "numeral _"] insert_commute numeral_2_eq_2)
  from safeguard_topk_at_least_one [OF s k n, THEN conjunct1, rule_format, OF c]
  obtain q where q: "apply_quantity_safeguard stable_argsort ?P ?Q 2 = Inr q" by blast
  with e have qe: "q = [[1, 0, 1], [2, 0, 1]]" by simp
  note t = safeguard_topk_at_least_one [OF s k n, THEN conjunct2, rule_format, OF q, of 0,
      unfolded qe]
  have i: "0 < length ?P" by simp
  from t [OF i] have "is_topk_set 2 (?P ! 0) (predicted_set stable_argsort 2 ?P 0)" by (rule conjunct1)
  then have p: "is_topk_set 2 [9/10, 1/10, 3/10::real] {0, 2}" unfolding m by simp
  from t [OF i] have "\<forall>l \<in> predicted_set stable_argsort 2 ?P 0. 1 \<le> [[1, 0, 1], [2, 0, 1::int]] ! 0 ! l"
    by (rule conjunct2)
  then have o: "(1::int) \<le> [[1, 0, 1], [2, 0, 1]] ! 0 ! 2" unfolding m by blast
  show ?thesis by (intro conjI s n c e m p o)
qed

text \<open>
  C9: applying the safeguard to its own result, with the same probability matrix, gives
  that result again (and an IndexError of the first application is the result of both),
  whatever order \<^verbatim>\<open>np.argsort\<close> gives.
\<close>

theorem apply_quantity_safeguard_idempotent:
  "bind_err (apply_quantity_safeguard argsort proba qty_pred k)
       (\<lambda>q. apply_quantity_safeguard argsort proba q k)
     = apply_quantity_safeguard argsort proba qty_pred k"
  by (simp add: apply_quantity_safeguard_def safeguard_rows_char bind_err_def rows_ok_upd_rows
      upd_rows_idem)

theorem apply_quantity_safeguard_idempotent_witness:
  "apply_quantity_safeguard stable_argsort [[1/10, 9/10, 3/10], [1/2, 2/10, 3/10]]
     [[0, 0, 0], [2, 0, 0]] 2 = Inr [[0, 1, 1], [2, 0, 1]] \<and>
   apply_quantity_safeguard stable_argsort [[1/10, 9/10, 3/10], [1/2, 2/10, 3/10]]
     [[0, 1, 1], [2, 0, 1]] 2 = Inr [[0, 1, 1], [2, 0, 1]]"
proof -
  let ?P = "[[1/10, 9/10, 3/10], [1/2, 2/10, 3/10::real]]"
  have e: "apply_quantity_safeguard stable_argsort ?P [[0, 0, 0], [2, 0, 0]] 2
      = Inr [[0, 1, 1], [2, 0, 1]]"
    by (simp add: apply_quantity_safeguard_def safeguard_cell_def bind_err_def topk_def
        topk_row_def slice_last_def stable_argsort_def upt_rec [of _ "Suc _"]
        upt_rec [of _ "numeral _"])
  from apply_quantity_safeguard_idempotent [of stable_argsort ?P "[[0, 0, 0], [2, 0, 0]]" 2]
  have "apply_quantity_safeguard stable_argsort ?P [[0, 1, 1], [2, 0, 1]] 2
      = Inr [[0, 1, 1], [2, 0, 1]]"
    unfolding e by (simp add: bind_err_def)
  with e show ?thesis by blast
qed

subsection \<open>\<^verbatim>\<open>accuracy_counts\<close>\<close>

lemma same_shape_length_concat: "same_shape a b \<Longrightarrow> length (concat a) = length (concat b)"
  by (simp add: same_shape_def length_concat)

lemma sum_indicator:
  "sum_list (map (\<lambda>(t, p). if t = p then 1 else 0) cells) =
     real (length (filter (\<lambda>(t, p). t = p) cells))"
  by (induction cells) auto

lemma positive_cells_empty_iff:
  assumes "same_shape y_pred y_true"
  shows "(positive_cells y_true y_pred = []) = (\<forall>v \<in> set (concat y_true). v \<le> 0)"
proof -
  from same_shape_length_concat [OF assms]
  have "fst ` set (zip (concat y_true) (concat y_pred)) = set (concat y_true)"
    by (metis map_fst_zip set_map)
  then show ?thesis
    unfolding positive_cells_def filter_empty_conv by force
qed

text \<open>
  C10: for a truth and a prediction matrix of one shape, \<open>accuracy_counts\<close> returns a
  fraction between 0 and 1 (the share of the positive truth cells that are predicted
  exactly) when some truth cell is positive, and NaN, not 0, when none is (in particular
  when the truth matrix is all zeros).
\<close>

theorem accuracy_counts_partial:
  assumes "same_shape y_pred_cnt y_true_cnt"
  shows "((\<exists>v \<in> set (concat y_true_cnt). 0 < v) \<longrightarrow>
            (\<exists>x. accuracy_counts y_true_cnt y_pred_cnt = Inr (Val x) \<and> 0 \<le> x \<and> x \<le> 1 \<and>
               x = real (length (filter (\<lambda>(t, p). t = p) (positive_cells y_true_cnt y_pred_cnt)))
                   / real (length (positive_cells y_true_cnt y_pred_cnt)))) \<and>
         ((\<forall>v \<in> set (concat y_true_cnt). v \<le> 0) \<longrightarrow>
            accuracy_counts y_true_cnt y_pred_cnt = Inr NaN)"
proof -
  let ?cells = "positive_cells y_true_cnt y_pred_cnt"
  have a: "accuracy_counts y_true_cnt y_pred_cnt =
      Inr (np_mean (map (\<lambda>(t, p). if t = p then 1 else 0) ?cells))"
    using assms by (simp add: accuracy_counts_def same_shape_def positive_cells_def)
  have e: "(?cells = []) = (\<forall>v \<in> set (concat y_true_cnt). v \<le> 0)"
    by (rule positive_cells_empty_iff [OF assms])
  have le: "length (filter (\<lambda>(t, p). t = p) ?cells) \<le> length ?cells" by simp
  show ?thesis
  proof (intro conjI impI)
    assume "\<exists>v \<in> set (concat y_true_cnt). 0 < v"
    with e have ne: "?cells \<noteq> []" by force
    then have pos: "0 < real (length ?cells)" by simp
    let ?x = "real (length (filter (\<lambda>(t, p). t = p) ?cells)) / real (length ?cells)"
    have "accuracy_counts y_true_cnt y_pred_cnt = Inr (Val ?x)"
      using ne by (simp add: a np_mean_def sum_indicator)
    moreover have "0 \<le> ?x" by simp
    moreover have "?x \<le> 1" using le pos by (simp add: divide_le_eq_1)
    ultimately show "\<exists>x. accuracy_counts y_true_cnt y_pred_cnt = Inr (Val x) \<and> 0 \<le> x \<and> x \<le> 1 \<and>
               x = real (length (filter (\<lambda>(t, p). t = p) ?cells)) / real (length ?cells)"
      by blast
  next
    assume "\<forall>v \<in> set (concat y_true_cnt). v \<le> 0"
    with e have "?cells = []" by simp
    then show "accuracy_counts y_true_cnt y_pred_cnt = Inr NaN"
      by (simp add: a np_mean_def)
  qed
qed

theorem accuracy_counts_partial_witness:
  "same_shape [[2, 1, 0], [0, 0, 3::int]] [[2, 0, 0], [0, 0, 3::int]] \<and>
   accuracy_counts [[2, 0, 0], [0, 0, 3]] [[2, 1, 0], [0, 0, 3]] = Inr (Val 1) \<and>
   accuracy_counts [[2, 4, 0], [0, 0, 3]] [[2, 1, 0], [0, 0, 3]] = Inr (Val (2 / 3)) \<and>
   accuracy_counts [[0, 0, 0], [0, 0, 0]] [[2, 1, 0], [0, 0, 3]] = Inr NaN"
proof -
  let ?p = "[[2, 1, 0], [0, 0, 3::int]]"
  have s: "same_shape ?p [[2, 0, 0], [0, 0, 3::int]]" "same_shape ?p [[2, 4, 0], [0, 0, 3::int]]"
    "same_shape ?p [[0, 0, 0], [0, 0, 0::int]]"
    by (simp_all add: same_shape_def)
  have c: "positive_cells [[2, 0, 0], [0, 0, 3]] ?p = [(2, 2), (3, 3)]"
    "positive_cells [[2, 4, 0], [0, 0, 3]] ?p = [(2, 2), (4, 1), (3, 3)]"
    by (simp_all add: positive_cells_def)
  from accuracy_counts_partial [OF s(1)]
  have 1: "accuracy_counts [[2, 0, 0], [0, 0, 3]] ?p = Inr (Val 1)"
    unfolding c by auto
  from accuracy_counts_partial [OF s(2)]
  have 2: "accuracy_counts [[2, 4, 0], [0, 0, 3]] ?p = Inr (Val (2 / 3))"
    unfolding c by auto
  from accuracy_counts_partial [OF s(3)]
  have 3: "accuracy_counts [[0, 0, 0], [0, 0, 0]] ?p = Inr NaN"
    by simp
  from s(1) 1 2 3 show ?thesis by blast
qed

subsection \<open>\<^verbatim>\<open>recall_at_k\<close> and \<^verbatim>\<open>partial_coverage_score\<close>\<close>

lemma recall_loop_closed:
  "length ys \<le> length tk \<Longrightarrow>
   recall_loop ys tk scores =
     Inr (scores @ map (\<lambda>(y, t). real (card (label_set y \<inter> set t)) / real (card (label_set y)))
                     (filter (\<lambda>(y, t). label_set y \<noteq> {}) (zip ys tk)))"
proof (induction ys arbitrary: tk scores)
  case Nil
  show ?case by simp
next
  case (Cons y ys)
  then obtain t ts where tk: "tk = t # ts" by (cases tk) auto
  with Cons.prems have "length ys \<le> length ts" by simp
  from Cons.IH [OF this] show ?case
    by (simp add: tk set_np_where_one Let_def)
qed

lemma recall_scores:
  assumes "length y_true \<le> length proba"
  shows "recall_loop y_true (topk argsort k proba) [] =
    Inr (map (recall_row (predicted_set argsort k proba) y_true)
           (filter (\<lambda>i. truth y_true i \<noteq> {}) [0..<length y_true]))"
proof -
  have len: "length y_true \<le> length (topk argsort k proba)" using assms by (simp add: topk_def)
  have "map (\<lambda>(y, t). real (card (label_set y \<inter> set t)) / real (card (label_set y)))
          (filter (\<lambda>(y, t). label_set y \<noteq> {}) (zip y_true (topk argsort k proba)))
      = map (\<lambda>i. real (card (label_set (y_true ! i) \<inter> set (topk argsort k proba ! i)))
                   / real (card (label_set (y_true ! i))))
          (filter (\<lambda>i. label_set (y_true ! i) \<noteq> {}) [0..<length y_true])"
    by (simp add: zip_as_indices [OF len] filter_map comp_def)
  also have "\<dots> = map (recall_row (predicted_set argsort k proba) y_true)
      (filter (\<lambda>i. truth y_true i \<noteq> {}) [0..<length y_true])"
    by (simp add: truth_def recall_row_def predicted_set_def)
  finally show ?thesis by (simp add: recall_loop_closed [OF len])
qed

text \<open>
  C4: let \<^verbatim>\<open>np.argsort\<close> sort every row of the probability matrix, \<open>k > 0\<close>, and the
  probability matrix have a row for each row of the truth matrix.  Then
  \<open>predicted_set(i)\<close> is a set of top-\<open>k\<close> labels of row \<open>i\<close> by probability, and
  \<open>recall_at_k\<close> is the mean, over the rows with a non-empty truth set, of
  \<open>|truth(i) \<inter> predicted_set(i)| / |truth(i)|\<close>, and 0 when no row has a non-empty
  truth set.
\<close>

theorem recall_at_k_is_mean:
  assumes "sorts_rows argsort proba" and "0 < k" and "length y_true \<le> length proba"
  shows "(\<forall>i < length y_true. is_topk_set k (proba ! i) (predicted_set argsort k proba i)) \<and>
         recall_at_k argsort y_true proba k =
           Inr (Val (recall_spec (predicted_set argsort k proba) y_true))"
proof
  show "\<forall>i < length y_true. is_topk_set k (proba ! i) (predicted_set argsort k proba i)"
    using assms(3) by (auto intro: predicted_set_is_topk [OF assms(1,2)])
  show "recall_at_k argsort y_true proba k =
      Inr (Val (recall_spec (predicted_set argsort k proba) y_true))"
    by (simp add: recall_at_k_def recall_scores [OF assms(3)] bind_err_def recall_spec_def
        np_mean_def Let_def)
qed

lemma coverage_loop_closed:
  "length ys \<le> length tk \<Longrightarrow>
   coverage_loop ys tk =
     Inr (map (\<lambda>(y, t). real (card (label_set y \<inter> set t)) / real_of_int (max 1 (sum_list y)))
            (zip ys tk))"
proof (induction ys tk rule: coverage_loop.induct)
  case (1 tk)
  show ?case by simp
next
  case (2 y ys)
  then show ?case by simp
next
  case (3 y ys t ts)
  then show ?case by (simp add: bind_err_def set_np_where_one)
qed

lemma sum_list_binary:
  "\<forall>v \<in> set row. v = 0 \<or> v = 1 \<Longrightarrow> sum_list row = int (length (filter (\<lambda>v. v = 1) row))"
  by (induction row) auto

lemma card_label_set: "card (label_set row) = length (filter (\<lambda>v. v = 1) row)"
proof -
  have "card (label_set row) = length (np_where_eq row 1)"
    unfolding set_np_where_one [symmetric]
    by (rule distinct_card) (simp add: np_where_eq_def)
  also have "\<dots> = length (filter (\<lambda>v. v = 1) (map ((!) row) [0..<length row]))"
    by (simp add: np_where_eq_def filter_map comp_def)
  also have "\<dots> = length (filter (\<lambda>v. v = 1) row)" by (simp add: map_nth)
  finally show ?thesis .
qed

lemma sum_list_card_label_set:
  "\<forall>v \<in> set row. v = 0 \<or> v = 1 \<Longrightarrow> sum_list row = int (card (label_set row))"
  by (simp add: sum_list_binary card_label_set)

lemma coverage_scores:
  assumes "length y_true \<le> length proba" and "binary_matrix y_true"
  shows "coverage_loop y_true (topk argsort k proba) =
    Inr (map (coverage_row (predicted_set argsort k proba) y_true) [0..<length y_true])"
proof -
  have len: "length y_true \<le> length (topk argsort k proba)" using assms by (simp add: topk_def)
  have bin: "sum_list (y_true ! i) = int (card (label_set (y_true ! i)))" if "i < length y_true" for i
    using that assms(2) by (intro sum_list_card_label_set) (auto simp: binary_matrix_def)
  have "map (\<lambda>(y, t). real (card (label_set y \<inter> set t)) / real_of_int (max 1 (sum_list y)))
          (zip y_true (topk argsort k proba))
      = map (\<lambda>i. real (card (label_set (y_true ! i) \<inter> set (topk argsort k proba ! i)))
                   / real_of_int (max 1 (sum_list (y_true ! i)))) [0..<length y_true]"
    by (simp add: zip_as_indices [OF len] comp_def)
  also have "\<dots> = map (coverage_row (predicted_set argsort k proba) y_true) [0..<length y_true]"
    by (rule map_cong) (auto simp: truth_def coverage_row_def predicted_set_def bin max_def)
  finally show ?thesis by (simp add: coverage_loop_closed [OF len])
qed

text \<open>
  C5: let \<^verbatim>\<open>np.argsort\<close> sort every row of the probability matrix, \<open>k > 0\<close>, the truth
  matrix hold zeros and ones and the probability matrix have a row for each of its rows.
  Then \<open>predicted_set(i)\<close> is a set of top-\<open>k\<close> labels of row \<open>i\<close> by probability, and
  \<open>partial_coverage_score\<close> is the mean over all rows, none left out, of
  \<open>|truth(i) \<inter> predicted_set(i)| / max(1, |truth(i)|)\<close>; a row with an empty truth set
  is one of the terms of this mean and contributes 0.
\<close>

theorem partial_coverage_is_mean:
  assumes "sorts_rows argsort proba" and "0 < k" and "length y_true \<le> length proba"
    and "binary_matrix y_true"
  shows "(\<forall>i < length y_true. is_topk_set k (proba ! i) (predicted_set argsort k proba i)) \<and>
         partial_coverage_score argsort y_true proba k =
           Inr (np_mean (map (coverage_row (predicted_set argsort k proba) y_true)
                  [0..<length y_true])) \<and>
         (y_true \<noteq> [] \<longrightarrow>
            partial_coverage_score argsort y_true proba k =
              Inr (Val (coverage_spec (predicted_set argsort k proba) y_true))) \<and>
         (\<forall>i < length y_true. truth y_true i = {} \<longrightarrow>
            coverage_row (predicted_set argsort k proba) y_true i = 0)"
proof
  show "\<forall>i < length y_true. is_topk_set k (proba ! i) (predicted_set argsort k proba i)"
    using assms(3) by (auto intro: predicted_set_is_topk [OF assms(1,2)])
  show "partial_coverage_score argsort y_true proba k =
           Inr (np_mean (map (coverage_row (predicted_set argsort k proba) y_true)
                  [0..<length y_true])) \<and>
         (y_true \<noteq> [] \<longrightarrow>
            partial_coverage_score argsort y_true proba k =
              Inr (Val (coverage_spec (predicted_set argsort k proba) y_true))) \<and>
         (\<forall>i < length y_true. truth y_true i = {} \<longrightarrow>
            coverage_row (predicted_set argsort k proba) y_true i = 0)"
    by (simp add: partial_coverage_score_def coverage_scores [OF assms(3,4)] bind_err_def
        np_mean_def coverage_spec_def coverage_row_def)
qed

theorem recall_at_k_is_mean_witness:
  "sorts_rows stable_argsort
     [[9/10, 1/10, 3/10, 5/10], [1/2, 2/10, 3/10, 1/10], [2/10, 7/10, 1/10, 4/10::real]] \<and>
   length [[1, 0, 0, 1], [0, 0, 0, 0], [0, 1, 1, 0::int]]
     \<le> length [[9/10, 1/10, 3/10, 5/10], [1/2, 2/10, 3/10, 1/10], [2/10, 7/10, 1/10, 4/10::real]] \<and>
   recall_at_k stable_argsort [[1, 0, 0, 1], [0, 0, 0, 0], [0, 1, 1, 0]]
     [[9/10, 1/10, 3/10, 5/10], [1/2, 2/10, 3/10, 1/10], [2/10, 7/10, 1/10, 4/10]] 2
     = Inr (Val (3 / 4)) \<and>
   recall_spec
     (predicted_set stable_argsort 2
        [[9/10, 1/10, 3/10, 5/10], [1/2, 2/10, 3/10, 1/10], [2/10, 7/10, 1/10, 4/10]])
     [[1, 0, 0, 1], [0, 0, 0, 0], [0, 1, 1, 0]] = 3 / 4 \<and>
   predicted_set stable_argsort 2
     [[9/10, 1/10, 3/10, 5/10], [1/2, 2/10, 3/10, 1/10], [2/10, 7/10, 1/10, 4/10]] 2 = {1, 3} \<and>
   is_topk_set 2 [2/10, 7/10, 1/10, 4/10::real] {1, 3}"
proof -
  let ?Y = "[[1, 0, 0, 1], [0, 0, 0, 0], [0, 1, 1, 0::int]]"
  let ?P = "[[9/10, 1/10, 3/10, 5/10], [1/2, 2/10, 3/10, 1/10], [2/10, 7/10, 1/10, 4/10::real]]"
  have s: "sorts_rows stable_argsort ?P" by (rule sorts_rows_stable_argsort)
  have k: "0 < (2::nat)" by simp
  have l: "length ?Y \<le> length ?P" by simp
  have e: "recall_at_k stable_argsort ?Y ?P 2 = Inr (Val (3 / 4))"
    by (simp add: recall_at_k_def bind_err_def np_mean_def topk_def topk_row_def slice_last_def
        stable_argsort_def np_where_eq_def upt_rec [of _ "Suc _"] upt_rec [of _ "numeral _"])
  have m: "predicted_set stable_argsort 2 ?P 2 = {1, 3}"
    by (simp add: predicted_set_def topk_def topk_row_def slice_last_def stable_argsort_def
        upt_rec [of _ "Suc _"] upt_rec [of _ "numeral _"] insert_commute numeral_3_eq_3)
  note t = recall_at_k_is_mean [OF s k l]
  from t [THEN conjunct2] e have r: "recall_spec (predicted_set stable_argsort 2 ?P) ?Y = 3 / 4"
    by simp
  have "2 < length ?Y" by simp
  with t [THEN conjunct1] have "is_topk_set 2 (?P ! 2) (predicted_set stable_argsort 2 ?P 2)"
    by blast
  then have p: "is_topk_set 2 [2/10, 7/10, 1/10, 4/10::real] {1, 3}" unfolding m by simp
  show ?thesis by (intro conjI s l e r m p)
qed

theorem partial_coverage_is_mean_witness:
  "sorts_rows stable_argsort
     [[9/10, 1/10, 3/10, 5/10], [1/2, 2/10, 3/10, 1/10], [2/10, 7/10, 1/10, 4/10::real]] \<and>
   length [[1, 0, 0, 1], [0, 0, 0, 0], [0, 1, 1, 0::int]]
     \<le> length [[9/10, 1/10, 3/10, 5/10], [1/2, 2/10, 3/10, 1/10], [2/10, 7/10, 1/10, 4/10::real]] \<and>
   binary_matrix [[1, 0, 0, 1], [0, 0, 0, 0], [0, 1, 1, 0]] \<and>
   partial_coverage_score stable_argsort [[1, 0, 0, 1], [0, 0, 0, 0], [0, 1, 1, 0]]
     [[9/10, 1/10, 3/10, 5/10], [1/2, 2/10, 3/10, 1/10], [2/10, 7/10, 1/10, 4/10]] 2
     = Inr (Val (1 / 2)) \<and>
   coverage_spec
     (predicted_set stable_argsort 2
        [[9/10, 1/10, 3/10, 5/10], [1/2, 2/10, 3/10, 1/10], [2/10, 7/10, 1/10, 4/10]])
     [[1, 0, 0, 1], [0, 0, 0, 0], [0, 1, 1, 0]] = 1 / 2 \<and>
   truth [[1, 0, 0, 1], [0, 0, 0, 0], [0, 1, 1, 0]] 1 = {} \<and>
   coverage_row
     (predicted_set stable_argsort 2
        [[9/10, 1/10, 3/10, 5/10], [1/2, 2/10, 3/10, 1/10], [2/10, 7/10, 1/10, 4/10]])
     [[1, 0, 0, 1], [0, 0, 0, 0], [0, 1, 1, 0]] 1 = 0 \<and>
   predicted_set stable_argsort 2
     [[9/10, 1/10, 3/10, 5/10], [1/2, 2/10, 3/10, 1/10], [2/10, 7/10, 1/10, 4/10]] 0 = {0, 3} \<and>
   is_topk_set 2 [9/10, 1/10, 3/10, 5/10::real] {0, 3}"
proof -
  let ?Y = "[[1, 0, 0, 1], [0, 0, 0, 0], [0, 1, 1, 0::int]]"
  let ?P = "[[9/10, 1/10, 3/10, 5/10], [1/2, 2/10, 3/10, 1/10], [2/10, 7/10, 1/10, 4/10::real]]"
  have s: "sorts_rows stable_argsort ?P" by (rule sorts_rows_stable_argsort)
  have k: "0 < (2::nat)" by simp
  have l: "length ?Y \<le> length ?P" by simp
  have b: "binary_matrix ?Y" by (simp add: binary_matrix_def)
  have e: "partial_coverage_score stable_argsort ?Y ?P 2 = Inr (Val (1 / 2))"
    by (simp add: partial_coverage_score_def bind_err_def np_mean_def topk_def topk_row_def
        slice_last_def stable_argsort_def np_where_eq_def upt_rec [of _ "Suc _"]
        upt_rec [of _ "numeral _"])
  have m: "predicted_set stable_argsort 2 ?P 0 = {0, 3}"
    by (simp add: predicted_set_def topk_def topk_row_def slice_last_def stable_argsort_def
        upt_rec [of _ "Suc _"] upt_rec [of _ "numeral _"] insert_commute numeral_3_eq_3)
  have t: "truth ?Y 1 = {}"
    by (simp add: truth_def label_set_code np_where_eq_def upt_rec [of _ "Suc _"]
        upt_rec [of _ "numeral _"])
  note pc = partial_coverage_is_mean [OF s k l b]
  have ne: "?Y \<noteq> []" by simp
  from pc [THEN conjunct2, THEN conjunct2, THEN conjunct1] ne
  have "partial_coverage_score stable_argsort ?Y ?P 2 =
      Inr (Val (coverage_spec (predicted_set stable_argsort 2 ?P) ?Y))" by blast
  with e have c: "coverage_spec (predicted_set stable_argsort 2 ?P) ?Y = 1 / 2" by simp
  have i1: "1 < length ?Y" by simp
  from pc [THEN conjunct2, THEN conjunct2, THEN conjunct2, rule_format, OF i1 t]
  have r: "coverage_row (predicted_set stable_argsort 2 ?P) ?Y 1 = 0" .
  have i0: "0 < length ?Y" by simp
  from pc [THEN conjunct1, rule_format, OF i0]
  have "is_topk_set 2 (?P ! 0) (predicted_set stable_argsort 2 ?P 0)" .
  then have p: "is_topk_set 2 [9/10, 1/10, 3/10, 5/10::real] {0, 3}" unfolding m by simp
  show ?thesis by (intro conjI s l b e c t r m p)
qed

subsection \<open>The constant predictor\<close>



lemma length_np_unique: "length (np_unique xs) = card (set xs)"
  by (simp add: np_unique_def length_remdups_card_conv)

lemma set_np_unique: "set (np_unique xs) = set xs"
  by (simp add: np_unique_def)











subsection \<open>The grouped split\<close>

lemma argmin_less: "argmin xs = Inr a \<Longrightarrow> a < length xs"
proof -
  assume a: "argmin xs = Inr a"
  then have ne: "xs \<noteq> []" by (auto simp: argmin_def split: if_splits)
  let ?P = "\<lambda>x. x \<noteq> Min (set xs)"
  from ne have "Min (set xs) \<in> set xs" by (intro Min_in) simp_all
  then have "takeWhile ?P xs \<noteq> xs" by (auto simp: takeWhile_eq_all_conv)
  then have "length (takeWhile ?P xs) < length xs"
    using length_takeWhile_le [of ?P xs]
    by (metis le_neq_implies_less takeWhile_eq_take take_all order_refl)
  with a ne show ?thesis by (simp add: argmin_def)
qed

lemma argmin_total: "xs \<noteq> [] \<Longrightarrow> \<exists>a. argmin xs = Inr a"
  by (simp add: argmin_def)

lemma index_in_less: "g \<in> set us \<Longrightarrow> index_in us g < length us"
proof -
  assume "g \<in> set us"
  then have "takeWhile (\<lambda>u. u \<noteq> g) us \<noteq> us" by (auto simp: takeWhile_eq_all_conv)
  then show ?thesis
    unfolding index_in_def using length_takeWhile_le [of "\<lambda>u. u \<noteq> g" us]
    by (metis le_neq_implies_less takeWhile_eq_take take_all order_refl)
qed

lemma assign_folds_range:
  "assign_folds ps per_fold g2f = Inr r \<Longrightarrow> \<forall>x \<in> set g2f. x < length per_fold \<Longrightarrow>
   length r = length g2f \<and> (\<forall>x \<in> set r. x < length per_fold)"
proof (induction ps arbitrary: per_fold g2f)
  case Nil
  then show ?case by simp
next
  case (Cons p ps)
  obtain g w where p: "p = (g, w)" by (cases p)
  from Cons.prems(1) obtain a where a: "argmin per_fold = Inr a"
    and rest: "assign_folds ps (per_fold[a := per_fold ! a + w]) (g2f[g := a]) = Inr r"
    by (auto simp: p bind_err_def split: sum.splits)
  from argmin_less [OF a] have al: "a < length per_fold" .
  have "\<forall>x \<in> set (g2f[g := a]). x < length (per_fold[a := per_fold ! a + w])"
    using Cons.prems(2) al by (auto dest!: set_update_subset_insert [THEN subsetD])
  from Cons.IH [OF rest this] show ?case by simp
qed

lemma assign_folds_total:
  "per_fold \<noteq> [] \<Longrightarrow> \<exists>r. assign_folds ps per_fold g2f = Inr r"
proof (induction ps arbitrary: per_fold g2f)
  case Nil
  show ?case by simp
next
  case (Cons p ps)
  obtain g w where p: "p = (g, w)" by (cases p)
  from argmin_total [OF Cons.prems] obtain a where a: "argmin per_fold = Inr a" by blast
  have "per_fold[a := per_fold ! a + w] \<noteq> []" using Cons.prems by simp
  from Cons.IH [OF this, of "g2f[g := a]"] show ?case by (simp add: p a bind_err_def)
qed

lemma group_kfold_props:
  assumes "group_kfold argsort k groups = Inr fold_of" and "0 < k"
  shows "length fold_of = length groups"
    and "\<forall>i < length groups. fold_of ! i < k"
    and "\<forall>i < length groups. \<forall>j < length groups. groups ! i = groups ! j \<longrightarrow> fold_of ! i = fold_of ! j"
proof -
  let ?u = "np_unique groups"
  let ?gi = "map (index_in ?u) groups"
  from assms(1) obtain g2f where
    af: "assign_folds (zip (rev (argsort (map (count_list ?gi) [0..<length ?u])))
           (map ((!) (map (count_list ?gi) [0..<length ?u]))
             (rev (argsort (map (count_list ?gi) [0..<length ?u])))))
          (replicate k 0) (replicate (length ?u) 0) = Inr g2f"
    and fo: "fold_of = map ((!) g2f) ?gi"
    by (auto simp: group_kfold_def Let_def bind_err_def split: if_splits sum.splits)
  have "\<forall>x \<in> set (replicate (length ?u) (0::nat)). x < length (replicate k (0::nat))"
    using assms(2) by simp
  from assign_folds_range [OF af this]
  have gl: "length g2f = length ?u" and gr: "\<forall>x \<in> set g2f. x < k" by simp_all
  show "length fold_of = length groups" by (simp add: fo)
  show "\<forall>i < length groups. fold_of ! i < k"
  proof (intro allI impI)
    fix i assume i: "i < length groups"
    then have "groups ! i \<in> set ?u" by (simp add: set_np_unique)
    from index_in_less [OF this] gl have "g2f ! index_in ?u (groups ! i) \<in> set g2f" by simp
    with gr i show "fold_of ! i < k" by (simp add: fo)
  qed
  show "\<forall>i < length groups. \<forall>j < length groups. groups ! i = groups ! j \<longrightarrow> fold_of ! i = fold_of ! j"
    by (simp add: fo)
qed

lemma group_kfold_split_sets:
  assumes "group_kfold_split argsort k groups n n_y = Inr folds"
  shows "\<exists>fold_of. group_kfold argsort k groups = Inr fold_of \<and> 2 \<le> k \<and> length groups = n \<and>
           n_y = n \<and> length folds = k \<and>
           (\<forall>f < k. val_set folds f = {i. i < n \<and> fold_of ! i = f}) \<and>
           (\<forall>f < k. set (fst (folds ! f)) = {i. i < n \<and> fold_of ! i \<noteq> f})"
proof -
  from assms have k: "2 \<le> k" and n: "length groups = n" and ny: "n_y = n"
    by (auto simp: group_kfold_split_def split: if_splits)
  from assms obtain fold_of where g: "group_kfold argsort k groups = Inr fold_of"
    and f: "folds = map (\<lambda>f. (filter (\<lambda>i. fold_of ! i \<noteq> f) [0..<n],
                              filter (\<lambda>i. fold_of ! i = f) [0..<n])) [0..<k]"
    by (auto simp: group_kfold_split_def bind_err_def split: if_splits sum.splits)
  have "length folds = k" by (simp add: f)
  moreover have "\<forall>f' < k. val_set folds f' = {i. i < n \<and> fold_of ! i = f'}"
    by (auto simp: f val_set_def)
  moreover have "\<forall>f' < k. set (fst (folds ! f')) = {i. i < n \<and> fold_of ! i \<noteq> f'}"
    by (auto simp: f)
  ultimately show ?thesis using g k n ny by blast
qed

lemma group_kfold_split_total:
  assumes "2 \<le> k" and "length groups = n" and "k \<le> card (set groups)"
  shows "\<exists>folds. group_kfold_split argsort k groups n n = Inr folds"
proof -
  have "card (set groups) \<le> length groups" by (rule card_length)
  with assms have nk: "\<not> n < k" by simp
  have u: "\<not> length (np_unique groups) < k" using assms(3) by (simp add: length_np_unique)
  from assms(1) have "replicate k (0::nat) \<noteq> []" by auto
  from assign_folds_total [OF this] u nk assms(1,2) show ?thesis
    by (simp add: group_kfold_split_def group_kfold_def Let_def bind_err_def split: sum.splits)
      (metis sum.disc(1) sum.disc(2))
qed

text \<open>
  C7: in a fold plan produced by the grouped split, whatever order \<^verbatim>\<open>np.argsort\<close>
  gives, there is one fold per split; rows of one group are in the same validation sets,
  so each group has exactly one fold whose validation set holds its rows; the validation
  sets are pairwise disjoint and their union is the full index set; each training set is
  the complement of its validation set.
\<close>

theorem group_kfold_partition:
  assumes "group_kfold_split argsort k groups n n_y = Inr folds"
  shows "length folds = k \<and>
         (\<forall>g \<in> set groups. \<exists>!f. f < k \<and> (\<forall>i < n. groups ! i = g \<longrightarrow> i \<in> val_set folds f)) \<and>
         (\<forall>f < k. \<forall>f' < k. f \<noteq> f' \<longrightarrow> val_set folds f \<inter> val_set folds f' = {}) \<and>
         (\<Union>f \<in> {0..<k}. val_set folds f) = {0..<n} \<and>
         (\<forall>f < k. set (fst (folds ! f)) = {0..<n} - val_set folds f)"
proof -
  from group_kfold_split_sets [OF assms] obtain fold_of where g: "group_kfold argsort k groups = Inr fold_of"
    and k: "2 \<le> k" and n: "length groups = n" and l: "length folds = k"
    and v0: "\<forall>f < k. val_set folds f = {i. i < n \<and> fold_of ! i = f}"
    and t0: "\<forall>f < k. set (fst (folds ! f)) = {i. i < n \<and> fold_of ! i \<noteq> f}"
    by blast
  have v: "val_set folds f = {i. i < n \<and> fold_of ! i = f}" if "f < k" for f
    using v0 that by blast
  have t: "set (fst (folds ! f)) = {i. i < n \<and> fold_of ! i \<noteq> f}" if "f < k" for f
    using t0 that by blast
  from k have k0: "0 < k" by simp
  note p = group_kfold_props [OF g k0, unfolded n]
  have one: "\<exists>!f. f < k \<and> (\<forall>i < n. groups ! i = g \<longrightarrow> i \<in> val_set folds f)"
    if gs: "g \<in> set groups" for g
  proof -
    from gs n obtain j where j: "j < n" and gj: "groups ! j = g" by (auto simp: in_set_conv_nth)
    let ?f = "fold_of ! j"
    from p(2) j have fk: "?f < k" by simp
    have "\<forall>i < n. groups ! i = g \<longrightarrow> i \<in> val_set folds ?f"
    proof (intro allI impI)
      fix i assume i: "i < n" and gi: "groups ! i = g"
      with gj have "groups ! i = groups ! j" by simp
      with p(3) i j have "fold_of ! i = fold_of ! j" by blast
      with i show "i \<in> val_set folds ?f" unfolding v [OF fk] by simp
    qed
    moreover have "f = ?f" if "f < k" and "\<forall>i < n. groups ! i = g \<longrightarrow> i \<in> val_set folds f" for f
      using that j gj by (simp add: v)
    ultimately show ?thesis using fk by blast
  qed
  have dis: "\<forall>f < k. \<forall>f' < k. f \<noteq> f' \<longrightarrow> val_set folds f \<inter> val_set folds f' = {}"
    by (auto simp: v)
  have un: "(\<Union>f \<in> {0..<k}. val_set folds f) = {0..<n}"
  proof
    show "(\<Union>f \<in> {0..<k}. val_set folds f) \<subseteq> {0..<n}" by (auto simp: v)
    show "{0..<n} \<subseteq> (\<Union>f \<in> {0..<k}. val_set folds f)"
    proof
      fix i assume "i \<in> {0..<n}"
      then have i: "i < n" by simp
      with p(2) have "fold_of ! i < k" by simp
      with i show "i \<in> (\<Union>f \<in> {0..<k}. val_set folds f)" by (auto simp: v)
    qed
  qed
  have tr: "\<forall>f < k. set (fst (folds ! f)) = {0..<n} - val_set folds f"
    by (auto simp: v t)
  show ?thesis
  proof (intro conjI ballI)
    show "length folds = k" by (rule l)
    show "\<exists>!f. f < k \<and> (\<forall>i < n. groups ! i = g \<longrightarrow> i \<in> val_set folds f)"
      if "g \<in> set groups" for g using that by (rule one)
    show "\<forall>f < k. \<forall>f' < k. f \<noteq> f' \<longrightarrow> val_set folds f \<inter> val_set folds f' = {}"
      by (rule dis)
    show "(\<Union>f \<in> {0..<k}. val_set folds f) = {0..<n}" by (rule un)
    show "\<forall>f < k. set (fst (folds ! f)) = {0..<n} - val_set folds f" by (rule tr)
  qed
qed

theorem group_kfold_partition_witness:
  "group_kfold_split stable_argsort 2 [7, 7, 8, 9, 9, 9::nat] 6 6
     = Inr [([0, 1, 2], [3, 4, 5]), ([3, 4, 5], [0, 1, 2])] \<and>
   length [([0, 1, 2::nat], [3, 4, 5::nat]), ([3, 4, 5], [0, 1, 2])] = 2 \<and>
   val_set [([0, 1, 2], [3, 4, 5]), ([3, 4, 5], [0, 1, 2])] 0
     \<inter> val_set [([0, 1, 2], [3, 4, 5]), ([3, 4, 5], [0, 1, 2])] 1 = {} \<and>
   (\<Union>f \<in> {0..<2}. val_set [([0, 1, 2], [3, 4, 5]), ([3, 4, 5], [0, 1, 2])] f) = {0..<6}"
proof -
  let ?F = "[([0, 1, 2::nat], [3, 4, 5::nat]), ([3, 4, 5], [0, 1, 2])]"
  have e: "group_kfold_split stable_argsort 2 [7, 7, 8, 9, 9, 9::nat] 6 6 = Inr ?F"
    by code_simp
  note p = group_kfold_partition [OF e]
  have l: "length ?F = 2" by (rule p [THEN conjunct1])
  have d: "\<forall>f < 2. \<forall>f' < 2. f \<noteq> f' \<longrightarrow> val_set ?F f \<inter> val_set ?F f' = {}"
    by (rule p [THEN conjunct2, THEN conjunct2, THEN conjunct1])
  have i: "val_set ?F 0 \<inter> val_set ?F 1 = {}"
    by (rule d [rule_format]) simp_all
  have u: "(\<Union>f \<in> {0..<2}. val_set ?F f) = {0..<6}"
    by (rule p [THEN conjunct2, THEN conjunct2, THEN conjunct2, THEN conjunct1])
  show ?thesis by (intro conjI e l i u)
qed

subsection \<open>Stage 1 of the cross-validation\<close>

lemma fold_set_cell:
  "l \<noteq> lbl \<or> r \<notin> fst ` set ps \<Longrightarrow>
   fold (\<lambda>(i, v) m. m[i := (m ! i)[lbl := v]]) ps m ! r ! l = m ! r ! l"
proof (induction ps arbitrary: m)
  case Nil
  show ?case by simp
next
  case (Cons p ps)
  obtain i v where p: "p = (i, v)" by (cases p)
  from Cons.prems have c: "l \<noteq> lbl \<or> r \<notin> fst ` set ps" and c0: "l \<noteq> lbl \<or> r \<noteq> i"
    by (auto simp: p)
  have "m[i := (m ! i)[lbl := v]] ! r ! l = m ! r ! l"
  proof (cases "r = i")
    case False
    then show ?thesis by simp
  next
    case True
    with c0 have ll: "l \<noteq> lbl" by simp
    show ?thesis
    proof (cases "i < length m")
      case True
      with \<open>r = i\<close> ll show ?thesis by simp
    next
      case False
      then have "m[i := (m ! i)[lbl := v]] = m" by (simp add: list_update_beyond)
      then show ?thesis by simp
    qed
  qed
  with Cons.IH [OF c, of "m[i := (m ! i)[lbl := v]]"] show ?case by (simp add: p)
qed

lemma set_column_cell:
  "l \<noteq> lbl \<or> r \<notin> set rows \<Longrightarrow> set_column rows lbl vals m ! r ! l = m ! r ! l"
  unfolding set_column_def
  by (rule fold_set_cell) (auto dest: set_zip_leftD)

lemma stage1_label_cell:
  assumes "stage1_label L Xt Y_bin tr te lbl proba = Inr proba'"
    and "l \<noteq> lbl \<or> r \<notin> set te \<or> skipped Y_bin tr lbl"
  shows "proba' ! r ! l = proba ! r ! l"
proof (cases "skipped Y_bin tr lbl")
  case True
  with assms(1) show ?thesis by (simp add: stage1_label_def skipped_def)
next
  case False
  with assms(2) have c: "l \<noteq> lbl \<or> r \<notin> set te" by blast
  from assms(1) False obtain vals where "proba' = set_column te lbl vals proba"
    by (auto simp: stage1_label_def skipped_def bind_err_def Let_def split: sum.splits)
  with set_column_cell [OF c] show ?thesis by simp
qed

lemma stage1_loop_cell:
  "stage1_loop L Xt Y_bin tr te lbls proba = Inr proba' \<Longrightarrow>
   r \<notin> set te \<or> skipped Y_bin tr l \<Longrightarrow> proba' ! r ! l = proba ! r ! l"
proof (induction lbls arbitrary: proba)
  case Nil
  then show ?case by simp
next
  case (Cons lbl lbls)
  from Cons.prems(1) obtain p1 where s1: "stage1_label L Xt Y_bin tr te lbl proba = Inr p1"
    and rest: "stage1_loop L Xt Y_bin tr te lbls p1 = Inr proba'"
    by (auto simp: bind_err_def split: sum.splits)
  from Cons.prems(2) have "l \<noteq> lbl \<or> r \<notin> set te \<or> skipped Y_bin tr lbl" by blast
  from stage1_label_cell [OF s1 this] Cons.IH [OF rest Cons.prems(2)] show ?case by simp
qed

lemma cv_fold_cell:
  assumes "cv_fold argsort L Xt Y_bin Y_cnt (tr, te) (proba, qty) = Inr (proba', qty')"
    and "r \<notin> set te \<or> skipped Y_bin tr l"
  shows "proba' ! r ! l = proba ! r ! l"
proof -
  from assms(1) have "stage1_loop L Xt Y_bin tr te [0..<ncols Y_bin] proba = Inr proba'"
    by (auto simp: cv_fold_def bind_err_def split: sum.splits)
  from stage1_loop_cell [OF this assms(2)] show ?thesis .
qed

lemma cv_folds_cell:
  "cv_folds argsort L Xt Y_bin Y_cnt folds st = Inr st' \<Longrightarrow>
   \<forall>fd \<in> set folds. r \<notin> set (snd fd) \<or> skipped Y_bin (fst fd) l \<Longrightarrow>
   fst st' ! r ! l = fst st ! r ! l"
proof (induction folds arbitrary: st)
  case Nil
  then show ?case by simp
next
  case (Cons fd folds)
  from Cons.prems(1) obtain st1 where f1: "cv_fold argsort L Xt Y_bin Y_cnt fd st = Inr st1"
    and rest: "cv_folds argsort L Xt Y_bin Y_cnt folds st1 = Inr st'"
    by (auto simp: bind_err_def split: sum.splits)
  from Cons.prems(2) have c: "r \<notin> set (snd fd) \<or> skipped Y_bin (fst fd) l"
    and cs: "\<forall>fd \<in> set folds. r \<notin> set (snd fd) \<or> skipped Y_bin (fst fd) l" by simp_all
  have "cv_fold argsort L Xt Y_bin Y_cnt (fst fd, snd fd) (fst st, snd st) = Inr (fst st1, snd st1)"
    using f1 by simp
  from cv_fold_cell [OF this c] Cons.IH [OF rest cs] show ?case by simp
qed

lemma zeros_like_cell:
  "r < length m \<Longrightarrow> l < length (m ! r) \<Longrightarrow> zeros_like m ! r ! l = 0"
  by (simp add: zeros_like_def)

text \<open>
  C8: for a fold of the plan and a label whose column has fewer than 2 distinct values
  over the fold's training rows, Stage 1 returns the probability matrix unchanged and
  without error for that label, and when the cross-validation returns its matrices, the
  entries of the fold's validation rows in that column are 0.
\<close>

theorem stage1_skip_leaves_zero:
  assumes "group_kfold_split argsort_int K_FOLDS groups (length Xt) (length Y_bin) = Inr folds"
    and "(tr, te) \<in> set folds"
    and "length (np_unique (map (\<lambda>i. Y_bin ! i ! l) tr)) < 2"
  shows "stage1_label L Xt Y_bin tr te l proba = Inr proba \<and>
         (cross_validate_transformed argsort argsort_int L Xt Y_bin Y_cnt groups = Inr (proba_out, qty_out) \<longrightarrow>
            (\<forall>i \<in> set te. l < length (Y_bin ! i) \<longrightarrow> proba_out ! i ! l = 0))"
proof (intro conjI impI ballI)
  show "stage1_label L Xt Y_bin tr te l proba = Inr proba"
    using assms(3) by (simp add: stage1_label_def)
next
  fix i
  assume cv: "cross_validate_transformed argsort argsort_int L Xt Y_bin Y_cnt groups = Inr (proba_out, qty_out)"
    and i: "i \<in> set te" and l: "l < length (Y_bin ! i)"
  let ?n = "length Xt"
  let ?k = "K_FOLDS"
  from group_kfold_split_sets [OF assms(1)] obtain fold_of where
    lf: "length folds = ?k" and ny: "length Y_bin = ?n"
    and v0: "\<forall>f < ?k. val_set folds f = {i. i < ?n \<and> fold_of ! i = f}"
    by blast
  from assms(2) lf obtain f where f: "f < ?k" and ff: "folds ! f = (tr, te)"
    by (auto simp: in_set_conv_nth)
  from v0 f have vf: "val_set folds f = {i. i < ?n \<and> fold_of ! i = f}" by blast
  from ff have "val_set folds f = set te" by (simp add: val_set_def)
  with vf i have "i < ?n" and fi: "fold_of ! i = f" by auto
  have sk: "skipped Y_bin tr l" using assms(3) by (simp add: skipped_def)
  have c: "\<forall>fd \<in> set folds. i \<notin> set (snd fd) \<or> skipped Y_bin (fst fd) l"
  proof
    fix fd assume "fd \<in> set folds"
    with lf obtain g where g: "g < ?k" and fg: "folds ! g = fd" by (auto simp: in_set_conv_nth)
    from v0 g have vg: "val_set folds g = {i. i < ?n \<and> fold_of ! i = g}" by blast
    show "i \<notin> set (snd fd) \<or> skipped Y_bin (fst fd) l"
    proof (cases "i \<in> set (snd fd)")
      case False
      then show ?thesis by simp
    next
      case True
      with fg have "i \<in> val_set folds g" by (simp add: val_set_def)
      with vg fi have "g = f" by simp
      with fg ff have "fd = (tr, te)" by simp
      with sk show ?thesis by simp
    qed
  qed
  from cv assms(1) have
    "cv_folds argsort L Xt Y_bin Y_cnt folds (zeros_like Y_bin, zeros_like Y_cnt) = Inr (proba_out, qty_out)"
    by (simp add: cross_validate_transformed_def bind_err_def)
  from cv_folds_cell [OF this c] have "proba_out ! i ! l = zeros_like Y_bin ! i ! l" by simp
  also have "\<dots> = 0" using \<open>i < ?n\<close> ny l by (simp add: zeros_like_cell)
  finally show "proba_out ! i ! l = 0" .
qed

theorem stage1_skip_leaves_zero_witness:
  "group_kfold_split stable_argsort K_FOLDS [1, 2, 3, 4, 5::nat] (length [10, 11, 12, 13, 14::nat])
       (length [[1, 1], [1, 0], [1, 0], [1, 0], [1, 0::int]])
     = Inr [([0, 1, 2, 3], [4]), ([0, 1, 2, 4], [3]), ([0, 1, 3, 4], [2]),
            ([0, 2, 3, 4], [1]), ([1, 2, 3, 4], [0])] \<and>
   length (np_unique (map (\<lambda>i. [[1, 1], [1, 0], [1, 0], [1, 0], [1, 0::int]] ! i ! 1) [1, 2, 3, 4])) < 2 \<and>
   cross_validate_transformed stable_argsort stable_argsort
     \<lparr>fit_svc = (\<lambda>X y. Inr ()), calibrate_cv = (\<lambda>m X y. Inr (\<lambda>x. 1 / 2)),
       calibrate_prefit = (\<lambda>m X y. Inl ValueError), fit_qty_svc = (\<lambda>X y. Inr (\<lambda>x. 1))\<rparr>
     [10, 11, 12, 13, 14::nat] [[1, 1], [1, 0], [1, 0], [1, 0], [1, 0]]
     [[2, 3], [1, 0], [1, 0], [1, 0], [1, 0]] [1, 2, 3, 4, 5::nat]
     = Inr ([[0, 0], [0, 1 / 2], [0, 1 / 2], [0, 1 / 2], [0, 1 / 2]],
            [[1, 1], [1, 3], [1, 3], [1, 3], [1, 3]]) \<and>
   [[0, 0], [0, 1 / 2], [0, 1 / 2], [0, 1 / 2], [0, 1 / 2::real]] ! 0 ! 1 = 0"
proof -
  let ?L = "\<lparr>fit_svc = (\<lambda>(X::nat list) (y::int list). (Inr () :: error + unit)),
       calibrate_cv = (\<lambda>(m::unit) (X::nat list) (y::int list). (Inr (\<lambda>x. 1 / 2) :: error + (nat \<Rightarrow> real))),
       calibrate_prefit = (\<lambda>(m::unit) (X::nat list) (y::int list). (Inl ValueError :: error + (nat \<Rightarrow> real))),
       fit_qty_svc = (\<lambda>(X::nat list) (y::int list). (Inr (\<lambda>x. 1) :: error + (nat \<Rightarrow> int)))\<rparr>"
  let ?X = "[10, 11, 12, 13, 14::nat]"
  let ?Y = "[[1, 1], [1, 0], [1, 0], [1, 0], [1, 0::int]]"
  let ?C = "[[2, 3], [1, 0], [1, 0], [1, 0], [1, 0::int]]"
  let ?G = "[1, 2, 3, 4, 5::nat]"
  let ?F = "[([0, 1, 2, 3::nat], [4::nat]), ([0, 1, 2, 4], [3]), ([0, 1, 3, 4], [2]),
            ([0, 2, 3, 4], [1]), ([1, 2, 3, 4], [0])]"
  let ?P = "[[0, 0], [0, 1 / 2], [0, 1 / 2], [0, 1 / 2], [0, 1 / 2::real]]"
  let ?Q = "[[1, 1], [1, 3], [1, 3], [1, 3], [1, 3::int]]"
  have s: "group_kfold_split stable_argsort K_FOLDS ?G (length ?X) (length ?Y) = Inr ?F" by code_simp
  have m: "([1, 2, 3, 4], [0]) \<in> set ?F" by simp
  have u: "length (np_unique (map (\<lambda>i. ?Y ! i ! 1) [1, 2, 3, 4])) < 2" by code_simp
  have e: "cross_validate_transformed stable_argsort stable_argsort ?L ?X ?Y ?C ?G = Inr (?P, ?Q)" by code_simp
  note t = stage1_skip_leaves_zero [OF s m u, where L = ?L and proba = ?P and argsort = stable_argsort
      and Y_cnt = ?C and proba_out = ?P and qty_out = ?Q, THEN conjunct2, rule_format]
  have "?P ! 0 ! 1 = 0"
    by (rule t) (use e in simp_all)
  with s u e show ?thesis by (intro conjI)
qed

end
